theory Spec2Isabelle
  imports Main "HOL-Library.Char_ord" "HOL-Library.List_Lexorder" "HOL-Library.Monad_Syntax"
begin

section \<open>The memory of the lock-coupled binary search tree (btree.h)\<close>

text \<open>
  A node pointer \<^verbatim>\<open>bt_node_t *\<close> is an address option: \<open>None\<close> is \<^verbatim>\<open>NULL\<close>.
  A node is the struct of btree.h; its \<^verbatim>\<open>key\<close> is the node's private copy of the
  string (made by \<^verbatim>\<open>strdup\<close>), its \<^verbatim>\<open>value\<close> is the opaque \<^verbatim>\<open>void *\<close> of the caller
  (field \<open>val\<close>), and \<open>mtx\<close> is the state of its mutex: \<open>True\<close> when locked.
\<close>

type_synonym addr = nat

record 'v bt_node =
  key :: string
  val :: 'v
  left :: "addr option"
  right :: "addr option"
  mtx :: bool

text \<open>
  The state of the \<^verbatim>\<open>pthread_rwlock_t\<close> of the tree: \<open>ReadLocked n\<close> is the lock held by
  \<open>n\<close> readers at once, \<open>WriteLocked\<close> the lock held by the one writer.
\<close>

datatype rwlock_t = Uninitialised | Unlocked | ReadLocked nat | WriteLocked

text \<open>
  What leaves the heap is recorded in order: \<open>Free_value v\<close> is one call of the
  caller's \<^verbatim>\<open>free_value\<close> callback on \<open>v\<close>, \<open>Free_node a\<close> is \<^verbatim>\<open>free\<close> of the node at \<open>a\<close>
  (together with its key).
\<close>

datatype 'v event = Free_value 'v | Free_node addr

text \<open>
  The memory holds the one \<^verbatim>\<open>btree_t\<close> object (its fields \<open>root\<close> and \<open>rwlock\<close>), the
  live nodes, and the record of what was released. A pointer \<^verbatim>\<open>btree_t *\<close> is
  \<open>Some ()\<close> when it points to that object and \<open>None\<close> when it is \<^verbatim>\<open>NULL\<close>.
\<close>

record 'v memory =
  root :: "addr option"
  rwlock :: rwlock_t
  nodes :: "addr \<rightharpoonup> 'v bt_node"
  events :: "'v event list"

type_synonym btree_ptr = "unit option"

text \<open>
  The outcome of the library calls that can fail inside one operation: the address
  \<^verbatim>\<open>calloc\<close> returns (\<open>None\<close> for \<^verbatim>\<open>NULL\<close>), whether \<^verbatim>\<open>strdup\<close> succeeds and whether
  \<^verbatim>\<open>pthread_mutex_init\<close> succeeds.
\<close>

record env =
  calloc_ret :: "addr option"
  strdup_ok :: bool
  mutex_init_ok :: bool

definition EINVAL :: int where "EINVAL = 22"
definition ENOMEM :: int where "ENOMEM = 12"

text \<open>
  \<^verbatim>\<open>strcmp\<close> of the C library: the byte strings are compared lexicographically, bytes
  as unsigned values. C fixes only the sign of the result; here it is -1, 0 or 1.
\<close>

fun strcmp :: "string \<Rightarrow> string \<Rightarrow> int" where
  "strcmp [] [] = 0"
| "strcmp [] (y # ys) = - 1"
| "strcmp (x # xs) [] = 1"
| "strcmp (x # xs) (y # ys) =
     (if x = y then strcmp xs ys
      else if (of_char x :: nat) < of_char y then - 1 else 1)"

subsection \<open>Locks\<close>

text \<open>
  A call that does not return has the result \<open>None\<close>: it blocks for ever on a lock
  that is held, runs for ever, or uses a pointer to no live node. Unlocking a mutex
  that is not locked leaves it unlocked, as the default mutex of glibc does.
\<close>

definition pthread_mutex_lock :: "'v memory \<Rightarrow> addr \<Rightarrow> 'v memory option" where
  "pthread_mutex_lock s a =
     (case nodes s a of
        None \<Rightarrow> None
      | Some n \<Rightarrow> if mtx n then None
                  else Some (s\<lparr>nodes := (nodes s)(a \<mapsto> n\<lparr>mtx := True\<rparr>)\<rparr>))"

definition pthread_mutex_unlock :: "'v memory \<Rightarrow> addr \<Rightarrow> 'v memory option" where
  "pthread_mutex_unlock s a =
     (case nodes s a of
        None \<Rightarrow> None
      | Some n \<Rightarrow> Some (s\<lparr>nodes := (nodes s)(a \<mapsto> n\<lparr>mtx := False\<rparr>)\<rparr>))"

text \<open>
  Readers share the lock: a read lock is granted while no writer holds the lock, also
  when other readers hold it. A write lock is granted only when nobody holds the
  lock. Unlocking releases one hold: the writer's, or one reader's.
\<close>

definition pthread_rwlock_rdlock :: "'v memory \<Rightarrow> 'v memory option" where
  "pthread_rwlock_rdlock s =
     (case rwlock s of
        Unlocked \<Rightarrow> Some (s\<lparr>rwlock := ReadLocked 1\<rparr>)
      | ReadLocked n \<Rightarrow> Some (s\<lparr>rwlock := ReadLocked (Suc n)\<rparr>)
      | _ \<Rightarrow> None)"

definition pthread_rwlock_wrlock :: "'v memory \<Rightarrow> 'v memory option" where
  "pthread_rwlock_wrlock s =
     (if rwlock s = Unlocked then Some (s\<lparr>rwlock := WriteLocked\<rparr>) else None)"

definition pthread_rwlock_unlock :: "'v memory \<Rightarrow> 'v memory option" where
  "pthread_rwlock_unlock s =
     (case rwlock s of
        WriteLocked \<Rightarrow> Some (s\<lparr>rwlock := Unlocked\<rparr>)
      | ReadLocked n \<Rightarrow>
          Some (s\<lparr>rwlock := (if n \<le> 1 then Unlocked else ReadLocked (n - 1))\<rparr>)
      | _ \<Rightarrow> None)"

text \<open>\<^verbatim>\<open>if (p) pthread_mutex_unlock(&p->mtx)\<close>.\<close>

definition unlock_if :: "'v memory \<Rightarrow> addr option \<Rightarrow> 'v memory option" where
  "unlock_if s p = (case p of None \<Rightarrow> Some s | Some a \<Rightarrow> pthread_mutex_unlock s a)"

text \<open>A write through a node pointer: \<^verbatim>\<open>p->field = x\<close>.\<close>

definition store :: "'v memory \<Rightarrow> addr \<Rightarrow> ('v bt_node \<Rightarrow> 'v bt_node) \<Rightarrow> 'v memory option" where
  "store s a f =
     (case nodes s a of
        None \<Rightarrow> None
      | Some n \<Rightarrow> Some (s\<lparr>nodes := (nodes s)(a \<mapsto> f n)\<rparr>))"

subsection \<open>Helpers: node\_new, node\_free, node\_free\_recursive\<close>

definition node_new :: "env \<Rightarrow> 'v memory \<Rightarrow> string \<Rightarrow> 'v \<Rightarrow> addr option \<times> 'v memory" where
  "node_new e s k v =
     (case calloc_ret e of
        None \<Rightarrow> (None, s)
      | Some a \<Rightarrow>
          if \<not> strdup_ok e then (None, s)
          else if \<not> mutex_init_ok e then (None, s)
          else (Some a,
                s\<lparr>nodes := (nodes s)(a \<mapsto>
                    \<lparr>key = k, val = v, left = None, right = None, mtx = False\<rparr>)\<rparr>))"

definition node_free :: "'v memory \<Rightarrow> addr option \<Rightarrow> bool \<Rightarrow> 'v memory option" where
  "node_free s n free_value =
     (case n of
        None \<Rightarrow> Some s
      | Some a \<Rightarrow>
          (case nodes s a of
             None \<Rightarrow> None
           | Some nd \<Rightarrow>
               Some (s\<lparr>nodes := (nodes s)(a := None),
                       events := events s
                         @ (if free_value then [Free_value (val nd)] else [])
                         @ [Free_node a]\<rparr>)))"

partial_function (option) node_free_recursive ::
  "'v memory \<Rightarrow> addr option \<Rightarrow> bool \<Rightarrow> 'v memory option" where
  "node_free_recursive s n free_value =
     (case n of
        None \<Rightarrow> Some s
      | Some a \<Rightarrow> do {
          nd \<leftarrow> nodes s a;
          s1 \<leftarrow> node_free_recursive s (left nd) free_value;
          nd1 \<leftarrow> nodes s1 a;
          s2 \<leftarrow> node_free_recursive s1 (right nd1) free_value;
          node_free s2 (Some a) free_value
        })"

declare node_free_recursive.simps [code]

subsection \<open>bt\_init, bt\_destroy\<close>

text \<open>\<open>init_rc\<close> is what \<^verbatim>\<open>pthread_rwlock_init\<close> returns: 0 when the lock was made.\<close>

definition bt_init :: "'v memory \<Rightarrow> btree_ptr \<Rightarrow> int \<Rightarrow> int \<times> 'v memory" where
  "bt_init s t init_rc =
     (if t = None then (EINVAL, s)
      else (init_rc,
            s\<lparr>root := None, rwlock := (if init_rc = 0 then Unlocked else rwlock s)\<rparr>))"

definition bt_destroy :: "'v memory \<Rightarrow> btree_ptr \<Rightarrow> bool \<Rightarrow> 'v memory option" where
  "bt_destroy s t free_value =
     (if t = None then Some s
      else do {
        s1 \<leftarrow> pthread_rwlock_wrlock s;
        s2 \<leftarrow> node_free_recursive s1 (root s1) free_value;
        s3 \<leftarrow> pthread_rwlock_unlock (s2\<lparr>root := None\<rparr>);
        Some (s3\<lparr>rwlock := Uninitialised\<rparr>)
      })"

subsection \<open>bt\_lookup\<close>

text \<open>
  An output parameter \<^verbatim>\<open>void **\<close> is \<open>None\<close> when the caller passes \<^verbatim>\<open>NULL\<close> and
  \<open>Some x\<close> when it points to a cell that holds \<open>x\<close>; the cell's content after the call
  is part of the result.
\<close>

partial_function (option) lookup_loop ::
  "string \<Rightarrow> 'v memory \<Rightarrow> addr option \<Rightarrow> 'v option \<Rightarrow> (bool \<times> 'v option \<times> 'v memory) option" where
  "lookup_loop k s cur value_out =
     (case cur of
        None \<Rightarrow> Some (False, value_out, s)
      | Some c \<Rightarrow> do {
          s1 \<leftarrow> pthread_mutex_lock s c;
          n \<leftarrow> nodes s1 c;
          if strcmp k (key n) = 0 then do {
            s2 \<leftarrow> pthread_mutex_unlock s1 c;
            Some (True, (if value_out \<noteq> None then Some (val n) else None), s2)
          } else do {
            s2 \<leftarrow> pthread_mutex_unlock s1 c;
            lookup_loop k s2 (if strcmp k (key n) < 0 then left n else right n) value_out
          }
        })"

declare lookup_loop.simps [code]

definition bt_lookup ::
  "'v memory \<Rightarrow> btree_ptr \<Rightarrow> string option \<Rightarrow> 'v option \<Rightarrow> (bool \<times> 'v option \<times> 'v memory) option" where
  "bt_lookup s t k value_out =
     (if t = None \<or> k = None then Some (False, value_out, s)
      else do {
        s1 \<leftarrow> pthread_rwlock_rdlock s;
        (found, out, s2) \<leftarrow> lookup_loop (the k) s1 (root s1) value_out;
        s3 \<leftarrow> pthread_rwlock_unlock s2;
        Some (found, out, s3)
      })"

subsection \<open>bt\_add\<close>

text \<open>
  The \<^verbatim>\<open>for (;;)\<close> loop of \<^verbatim>\<open>bt_add\<close>. It returns \<^verbatim>\<open>rc\<close>, the memory and the final
  \<^verbatim>\<open>parent\<close>, which is unlocked after the loop.
\<close>

partial_function (option) add_loop ::
  "env \<Rightarrow> string \<Rightarrow> 'v \<Rightarrow> 'v memory \<Rightarrow> addr option \<Rightarrow> addr \<Rightarrow> (int \<times> 'v memory \<times> addr option) option" where
  "add_loop e k v s parent cur = do {
     n \<leftarrow> nodes s cur;
     if strcmp k (key n) = 0 then do {
       s1 \<leftarrow> store s cur (\<lambda>n. n\<lparr>val := v\<rparr>);
       s2 \<leftarrow> pthread_mutex_unlock s1 cur;
       Some (1, s2, parent)
     } else
       (case (if strcmp k (key n) < 0 then left n else right n) of
          None \<Rightarrow>
            (case node_new e s k v of
               (None, s1) \<Rightarrow> do {
                 s2 \<leftarrow> pthread_mutex_unlock s1 cur;
                 Some (ENOMEM, s2, parent)
               }
             | (Some a, s1) \<Rightarrow> do {
                 s2 \<leftarrow> store s1 cur
                   (\<lambda>n. if strcmp k (key n) < 0 then n\<lparr>left := Some a\<rparr> else n\<lparr>right := Some a\<rparr>);
                 s3 \<leftarrow> pthread_mutex_unlock s2 cur;
                 Some (0, s3, parent)
               })
        | Some next \<Rightarrow> do {
            s1 \<leftarrow> pthread_mutex_lock s next;
            s2 \<leftarrow> unlock_if s1 parent;
            add_loop e k v s2 (Some cur) next
          })
   }"

declare add_loop.simps [code]

text \<open>The loop together with the statement after it, which unlocks the final \<^verbatim>\<open>parent\<close>.\<close>

definition add_from ::
  "env \<Rightarrow> string \<Rightarrow> 'v \<Rightarrow> 'v memory \<Rightarrow> addr option \<Rightarrow> addr \<Rightarrow> (int \<times> 'v memory) option" where
  "add_from e k v s parent cur = do {
     (rc, s1, parent') \<leftarrow> add_loop e k v s parent cur;
     s2 \<leftarrow> unlock_if s1 parent';
     Some (rc, s2)
   }"

definition bt_add ::
  "env \<Rightarrow> 'v memory \<Rightarrow> btree_ptr \<Rightarrow> string option \<Rightarrow> 'v \<Rightarrow> (int \<times> 'v memory) option" where
  "bt_add e s t k v =
     (if t = None \<or> k = None then Some (EINVAL, s)
      else do {
        s1 \<leftarrow> pthread_rwlock_wrlock s;
        (rc, s3) \<leftarrow>
          (case root s1 of
             None \<Rightarrow>
               (case node_new e s1 (the k) v of
                  (None, s2) \<Rightarrow> Some (ENOMEM, s2)
                | (Some a, s2) \<Rightarrow> Some (0, s2\<lparr>root := Some a\<rparr>))
           | Some cur \<Rightarrow> do {
               s2 \<leftarrow> pthread_mutex_lock s1 cur;
               add_from e (the k) v s2 None cur
             });
        s4 \<leftarrow> pthread_rwlock_unlock s3;
        Some (rc, s4)
      })"

subsection \<open>bt\_delete\<close>

text \<open>
  \<^verbatim>\<open>find_min_locked\<close>: the loop, then the function. The mutex that the loop releases
  in its first round is the one of \<^verbatim>\<open>start\<close>.
\<close>

partial_function (option) find_min_loop ::
  "'v memory \<Rightarrow> addr \<Rightarrow> addr \<Rightarrow> ('v memory \<times> addr \<times> addr) option" where
  "find_min_loop s parent cur = do {
     n \<leftarrow> nodes s cur;
     (case left n of
        None \<Rightarrow> Some (s, parent, cur)
      | Some next \<Rightarrow> do {
          s1 \<leftarrow> pthread_mutex_lock s next;
          s2 \<leftarrow> pthread_mutex_unlock s1 parent;
          find_min_loop s2 cur next
        })
   }"

declare find_min_loop.simps [code]

definition find_min_locked :: "'v memory \<Rightarrow> addr \<Rightarrow> ('v memory \<times> addr \<times> addr) option" where
  "find_min_locked s start = do {
     n \<leftarrow> nodes s start;
     cur \<leftarrow> right n;
     s1 \<leftarrow> pthread_mutex_lock s cur;
     find_min_loop s1 start cur
   }"

text \<open>
  The search loop of \<^verbatim>\<open>bt_delete\<close>. \<^verbatim>\<open>cur\<close> is never \<^verbatim>\<open>NULL\<close> in it: the loop leaves
  through \<^verbatim>\<open>goto out_unlock\<close> before it would step to a \<^verbatim>\<open>NULL\<close> child, and on that
  way out it unlocks \<^verbatim>\<open>cur\<close> only.
\<close>

datatype 'v search = Not_found "'v memory" | Found "'v memory" "addr option" addr

partial_function (option) delete_search ::
  "string \<Rightarrow> 'v memory \<Rightarrow> addr option \<Rightarrow> addr \<Rightarrow> 'v search option" where
  "delete_search k s parent cur = do {
     n \<leftarrow> nodes s cur;
     if strcmp k (key n) \<noteq> 0 then
       (case (if strcmp k (key n) < 0 then left n else right n) of
          None \<Rightarrow> do {
            s1 \<leftarrow> pthread_mutex_unlock s cur;
            Some (Not_found s1)
          }
        | Some next \<Rightarrow> do {
            s1 \<leftarrow> pthread_mutex_lock s next;
            s2 \<leftarrow> unlock_if s1 parent;
            delete_search k s2 (Some cur) next
          })
     else Some (Found s parent cur)
   }"

declare delete_search.simps [code]

text \<open>Case 1 of \<^verbatim>\<open>bt_delete\<close>: the node has at most one child.\<close>

definition delete_case1 :: "'v memory \<Rightarrow> addr option \<Rightarrow> addr \<Rightarrow> 'v memory option" where
  "delete_case1 s parent cur = do {
     n \<leftarrow> nodes s cur;
     let child = (if left n \<noteq> None then left n else right n);
     s1 \<leftarrow> (case parent of
             None \<Rightarrow> Some (s\<lparr>root := child\<rparr>)
           | Some p \<Rightarrow> do {
               pn \<leftarrow> nodes s p;
               if left pn = Some cur then store s p (\<lambda>n. n\<lparr>left := child\<rparr>)
               else store s p (\<lambda>n. n\<lparr>right := child\<rparr>)
             });
     s2 \<leftarrow> pthread_mutex_unlock s1 cur;
     s3 \<leftarrow> unlock_if s2 parent;
     node_free s3 (Some cur) False
   }"

text \<open>
  Case 2 of \<^verbatim>\<open>bt_delete\<close>: two children. The result is the status, the content of
  the caller's cell and the memory.
\<close>

definition delete_case2 ::
  "env \<Rightarrow> 'v memory \<Rightarrow> addr option \<Rightarrow> addr \<Rightarrow> 'v option \<Rightarrow> (int \<times> 'v option \<times> 'v memory) option" where
  "delete_case2 e s parent cur old_value = do {
     (s1, succ_parent, succ) \<leftarrow> find_min_locked s cur;
     sn \<leftarrow> nodes s1 succ;
     if \<not> strdup_ok e then do {
       s2 \<leftarrow> pthread_mutex_unlock s1 succ;
       s3 \<leftarrow> pthread_mutex_unlock s2 succ_parent;
       s4 \<leftarrow> pthread_mutex_unlock s3 cur;
       s5 \<leftarrow> unlock_if s4 parent;
       Some (ENOMEM, old_value, s5)
     } else do {
       s2 \<leftarrow> store s1 cur (\<lambda>n. n\<lparr>key := key sn\<rparr>);
       sn2 \<leftarrow> nodes s2 succ;
       (old_value2, s3) \<leftarrow>
          (if old_value \<noteq> None then Some (Some (val sn2), s2)
           else do { s' \<leftarrow> store s2 cur (\<lambda>n. n\<lparr>val := val sn2\<rparr>); Some (old_value, s') });
       sn3 \<leftarrow> nodes s3 succ;
       s4 \<leftarrow> (if succ_parent = cur then store s3 cur (\<lambda>n. n\<lparr>right := right sn3\<rparr>)
              else store s3 succ_parent (\<lambda>n. n\<lparr>left := right sn3\<rparr>));
       s5 \<leftarrow> pthread_mutex_unlock s4 succ;
       s6 \<leftarrow> pthread_mutex_unlock s5 succ_parent;
       s7 \<leftarrow> pthread_mutex_unlock s6 cur;
       s8 \<leftarrow> unlock_if s7 parent;
       s9 \<leftarrow> node_free s8 (Some succ) False;
       Some (0, old_value2, s9)
     }
   }"

text \<open>What \<^verbatim>\<open>bt_delete\<close> does with the node it found, \<^verbatim>\<open>cur\<close> and \<^verbatim>\<open>parent\<close> locked.\<close>

definition delete_node ::
  "env \<Rightarrow> 'v memory \<Rightarrow> addr option \<Rightarrow> addr \<Rightarrow> 'v option \<Rightarrow> (int \<times> 'v option \<times> 'v memory) option" where
  "delete_node e s parent cur old_value = do {
     n \<leftarrow> nodes s cur;
     let old_value1 = (if old_value \<noteq> None then Some (val n) else None);
     if left n = None \<or> right n = None then do {
       s1 \<leftarrow> delete_case1 s parent cur;
       Some (0, old_value1, s1)
     } else delete_case2 e s parent cur old_value1
   }"

text \<open>The search from \<^verbatim>\<open>cur\<close> and what follows it, up to the label \<^verbatim>\<open>out_unlock\<close>.\<close>

definition delete_from ::
  "env \<Rightarrow> string \<Rightarrow> 'v option \<Rightarrow> 'v memory \<Rightarrow> addr option \<Rightarrow> addr \<Rightarrow> (int \<times> 'v option \<times> 'v memory) option" where
  "delete_from e k old_value s parent cur = do {
     found \<leftarrow> delete_search k s parent cur;
     (case found of
        Not_found s1 \<Rightarrow> Some (- 1, old_value, s1)
      | Found s1 parent' cur' \<Rightarrow> delete_node e s1 parent' cur' old_value)
   }"

definition bt_delete ::
  "env \<Rightarrow> 'v memory \<Rightarrow> btree_ptr \<Rightarrow> string option \<Rightarrow> 'v option \<Rightarrow> (int \<times> 'v option \<times> 'v memory) option" where
  "bt_delete e s t k old_value =
     (if t = None \<or> k = None then Some (EINVAL, old_value, s)
      else do {
        s1 \<leftarrow> pthread_rwlock_wrlock s;
        (result, out, s3) \<leftarrow>
          (case root s1 of
             None \<Rightarrow> Some (- 1, old_value, s1)
           | Some r \<Rightarrow> do {
               s2 \<leftarrow> pthread_mutex_lock s1 r;
               delete_from e (the k) old_value s2 None r
             });
        s4 \<leftarrow> pthread_rwlock_unlock s3;
        Some (result, out, s4)
      })"
section \<open>The tree that the memory holds\<close>

text \<open>
  The shape of the linked nodes as a value: each node with its address, key and
  value. \<open>is_tree h p t\<close> says that the pointer \<open>p\<close> leads, in the heap \<open>h\<close>, to
  exactly the tree \<open>t\<close>, no node reached twice.
\<close>

datatype 'v tree = Leaf | Node "'v tree" addr string 'v "'v tree"

fun addrs :: "'v tree \<Rightarrow> addr set" where
  "addrs Leaf = {}"
| "addrs (Node l a k v r) = insert a (addrs l \<union> addrs r)"

fun keys :: "'v tree \<Rightarrow> string list" where
  "keys Leaf = []"
| "keys (Node l a k v r) = keys l @ k # keys r"

fun is_tree :: "(addr \<rightharpoonup> 'v bt_node) \<Rightarrow> addr option \<Rightarrow> 'v tree \<Rightarrow> bool" where
  "is_tree h p Leaf = (p = None)"
| "is_tree h p (Node l a k v r) =
     (p = Some a \<and> a \<notin> addrs l \<and> a \<notin> addrs r \<and> addrs l \<inter> addrs r = {} \<and>
      (case h a of
         None \<Rightarrow> False
       | Some n \<Rightarrow> key n = k \<and> val n = v \<and> is_tree h (left n) l \<and> is_tree h (right n) r))"

text \<open>The binary search tree ordering, with the comparison the code uses.\<close>

fun bst :: "'v tree \<Rightarrow> bool" where
  "bst Leaf = True"
| "bst (Node l a k v r) =
     (bst l \<and> bst r \<and> (\<forall>x\<in>set (keys l). strcmp x k < 0) \<and> (\<forall>x\<in>set (keys r). strcmp k x < 0))"

definition locked :: "(addr \<rightharpoonup> 'v bt_node) \<Rightarrow> addr \<Rightarrow> bool" where
  "locked h a = (case h a of None \<Rightarrow> False | Some n \<Rightarrow> mtx n)"

text \<open>The heap without the state of the mutexes.\<close>

definition core :: "(addr \<rightharpoonup> 'v bt_node) \<Rightarrow> addr \<Rightarrow> 'v bt_node option" where
  "core h a = map_option (\<lambda>n. n\<lparr>mtx := False\<rparr>) (h a)"

text \<open>
  A still-point: the memory holds the tree \<open>t\<close> and nothing else, and no lock is held.
\<close>

definition still :: "'v memory \<Rightarrow> 'v tree \<Rightarrow> bool" where
  "still s t \<longleftrightarrow>
     is_tree (nodes s) (root s) t \<and> dom (nodes s) = addrs t \<and>
     (\<forall>a. \<not> locked (nodes s) a) \<and> rwlock s = Unlocked"

text \<open>The search that all three operations make, and the nodes it visits.\<close>

fun tree_find :: "string \<Rightarrow> 'v tree \<Rightarrow> (addr \<times> 'v) option" where
  "tree_find k Leaf = None"
| "tree_find k (Node l a k' v r) =
     (if strcmp k k' = 0 then Some (a, v)
      else if strcmp k k' < 0 then tree_find k l else tree_find k r)"

fun path :: "string \<Rightarrow> 'v tree \<Rightarrow> addr list" where
  "path k Leaf = []"
| "path k (Node l a k' v r) =
     (if strcmp k k' = 0 then [a]
      else if strcmp k k' < 0 then a # path k l else a # path k r)"

subsection \<open>What bt\_add does to the tree\<close>

text \<open>The node that \<^verbatim>\<open>node_new\<close> returns: none when one of its three calls fails.\<close>

definition new_node :: "env \<Rightarrow> addr option" where
  "new_node e = (if strdup_ok e \<and> mutex_init_ok e then calloc_ret e else None)"

fun tree_add :: "addr option \<Rightarrow> string \<Rightarrow> 'v \<Rightarrow> 'v tree \<Rightarrow> 'v tree" where
  "tree_add new k v Leaf = (case new of None \<Rightarrow> Leaf | Some a \<Rightarrow> Node Leaf a k v Leaf)"
| "tree_add new k v (Node l a k' v' r) =
     (if strcmp k k' = 0 then Node l a k' v r
      else if strcmp k k' < 0 then Node (tree_add new k v l) a k' v' r
      else Node l a k' v' (tree_add new k v r))"

fun add_rc :: "addr option \<Rightarrow> string \<Rightarrow> 'v tree \<Rightarrow> int" where
  "add_rc new k Leaf = (if new = None then ENOMEM else 0)"
| "add_rc new k (Node l a k' v' r) =
     (if strcmp k k' = 0 then 1
      else if strcmp k k' < 0 then add_rc new k l else add_rc new k r)"

text \<open>
  What a run of the loop of \<^verbatim>\<open>bt_add\<close> from \<open>cur\<close> leaves, \<open>t\<close> being the tree at \<open>cur\<close>:
  the tree with the key added, the status, every other node as it was, and the
  mutexes of \<open>cur\<close> and \<open>parent\<close> released.
\<close>

definition add_post ::
  "env \<Rightarrow> string \<Rightarrow> 'v \<Rightarrow> 'v memory \<Rightarrow> addr option \<Rightarrow> addr \<Rightarrow> 'v tree \<Rightarrow> int \<Rightarrow> 'v memory \<Rightarrow> bool" where
  "add_post e k v s parent cur t rc s' \<longleftrightarrow>
     is_tree (nodes s') (Some cur) (tree_add (new_node e) k v t) \<and>
     rc = add_rc (new_node e) k t \<and>
     (\<forall>x. x \<notin> addrs (tree_add (new_node e) k v t) \<longrightarrow> core (nodes s') x = core (nodes s) x) \<and>
     (\<forall>x. locked (nodes s') x = (x \<noteq> cur \<and> Some x \<noteq> parent \<and> locked (nodes s) x)) \<and>
     root s' = root s \<and> rwlock s' = rwlock s \<and> events s' = events s"

subsection \<open>What bt\_delete does to the tree\<close>

text \<open>The leftmost node of a tree, and the tree without it.\<close>

fun min_node :: "'v tree \<Rightarrow> (addr \<times> string \<times> 'v) option" where
  "min_node Leaf = None"
| "min_node (Node l a k v r) = (if l = Leaf then Some (a, k, v) else min_node l)"

fun del_min :: "'v tree \<Rightarrow> 'v tree" where
  "del_min Leaf = Leaf"
| "del_min (Node l a k v r) = (if l = Leaf then r else Node (del_min l) a k v r)"

text \<open>
  \<open>ok\<close> is whether \<^verbatim>\<open>strdup\<close> succeeds and \<open>out\<close> whether the caller supplies
  \<^verbatim>\<open>old_value\<close>. With two children the node keeps its address and takes the key of
  the leftmost node of its right subtree; it takes that node's value only when
  \<open>out\<close> is false.
\<close>

fun tree_del :: "bool \<Rightarrow> bool \<Rightarrow> string \<Rightarrow> 'v tree \<Rightarrow> 'v tree" where
  "tree_del ok out k Leaf = Leaf"
| "tree_del ok out k (Node l a k' v' r) =
     (if strcmp k k' = 0 then
        (if l = Leaf then r
         else if r = Leaf then l
         else (case min_node r of
                 None \<Rightarrow> Node l a k' v' r
               | Some (sa, sk, sv) \<Rightarrow>
                   if ok then Node l a sk (if out then v' else sv) (del_min r)
                   else Node l a k' v' r))
      else if strcmp k k' < 0 then Node (tree_del ok out k l) a k' v' r
      else Node l a k' v' (tree_del ok out k r))"

fun del_rc :: "bool \<Rightarrow> string \<Rightarrow> 'v tree \<Rightarrow> int" where
  "del_rc ok k Leaf = - 1"
| "del_rc ok k (Node l a k' v' r) =
     (if strcmp k k' = 0 then (if l \<noteq> Leaf \<and> r \<noteq> Leaf \<and> \<not> ok then ENOMEM else 0)
      else if strcmp k k' < 0 then del_rc ok k l else del_rc ok k r)"

fun del_out :: "bool \<Rightarrow> string \<Rightarrow> 'v option \<Rightarrow> 'v tree \<Rightarrow> 'v option" where
  "del_out ok k old Leaf = old"
| "del_out ok k old (Node l a k' v' r) =
     (if strcmp k k' = 0 then
        (if old = None then None
         else if l \<noteq> Leaf \<and> r \<noteq> Leaf \<and> ok
              then (case min_node r of None \<Rightarrow> Some v' | Some (sa, sk, sv) \<Rightarrow> Some sv)
              else Some v')
      else if strcmp k k' < 0 then del_out ok k old l else del_out ok k old r)"

fun del_freed :: "bool \<Rightarrow> string \<Rightarrow> 'v tree \<Rightarrow> addr option" where
  "del_freed ok k Leaf = None"
| "del_freed ok k (Node l a k' v' r) =
     (if strcmp k k' = 0 then
        (if l = Leaf \<or> r = Leaf then Some a
         else if ok then map_option fst (min_node r) else None)
      else if strcmp k k' < 0 then del_freed ok k l else del_freed ok k r)"

text \<open>The parent of the leftmost node of a tree whose root has the parent \<open>p\<close>.\<close>

fun min_parent :: "addr \<Rightarrow> 'v tree \<Rightarrow> addr" where
  "min_parent p Leaf = p"
| "min_parent p (Node l a k v r) = (if l = Leaf then p else min_parent a l)"

text \<open>
  The pointer that leads to a node: the root pointer when the node has no parent,
  else the left (\<open>d\<close> true) or right field of the parent.
\<close>

definition link :: "'v memory \<Rightarrow> addr option \<Rightarrow> bool \<Rightarrow> addr option" where
  "link s parent d =
     (case parent of
        None \<Rightarrow> root s
      | Some p \<Rightarrow> (case nodes s p of None \<Rightarrow> None | Some pn \<Rightarrow> if d then left pn else right pn))"

text \<open>
  What the search of \<^verbatim>\<open>bt_delete\<close> from \<open>cur\<close> needs and leaves, \<open>t\<close> being the tree at
  \<open>cur\<close>: the pointer that led to \<open>cur\<close> leads to the tree without the key; no other
  node changes; the spliced node is gone; unless the key was missing, the mutexes of
  \<open>cur\<close> and \<open>parent\<close> are released.
\<close>

definition link_ok :: "'v memory \<Rightarrow> addr option \<Rightarrow> bool \<Rightarrow> addr \<Rightarrow> 'v tree \<Rightarrow> bool" where
  "link_ok s parent d cur t \<longleftrightarrow>
     link s parent d = Some cur \<and>
     (\<forall>p. parent = Some p \<longrightarrow>
        p \<notin> addrs t \<and> (\<forall>pn. nodes s p = Some pn \<longrightarrow> (left pn = Some cur) = d))"

definition del_post ::
  "env \<Rightarrow> string \<Rightarrow> 'v option \<Rightarrow> 'v memory \<Rightarrow> addr option \<Rightarrow> bool \<Rightarrow> addr \<Rightarrow> 'v tree
     \<Rightarrow> int \<Rightarrow> 'v option \<Rightarrow> 'v memory \<Rightarrow> bool" where
  "del_post e k old s parent d cur t res out s' \<longleftrightarrow>
     is_tree (nodes s') (link s' parent d) (tree_del (strdup_ok e) (old \<noteq> None) k t) \<and>
     res = del_rc (strdup_ok e) k t \<and>
     out = del_out (strdup_ok e) k old t \<and>
     (\<forall>x. x \<notin> addrs t \<longrightarrow> Some x \<noteq> parent \<longrightarrow> core (nodes s') x = core (nodes s) x) \<and>
     (\<forall>p. parent = Some p \<longrightarrow>
        root s' = root s \<and>
        core (nodes s') p =
          map_option (\<lambda>n. if d then n\<lparr>left := link s' parent d\<rparr> else n\<lparr>right := link s' parent d\<rparr>)
            (core (nodes s) p)) \<and>
     (\<forall>x\<in>addrs t - addrs (tree_del (strdup_ok e) (old \<noteq> None) k t). nodes s' x = None) \<and>
     (res \<noteq> - 1 \<longrightarrow>
        (\<forall>x. locked (nodes s') x = (x \<noteq> cur \<and> Some x \<noteq> parent \<and> locked (nodes s) x))) \<and>
     rwlock s' = rwlock s \<and>
     events s' = events s @ (case del_freed (strdup_ok e) k t of None \<Rightarrow> [] | Some a \<Rightarrow> [Free_node a])"

text \<open>
  The subtree at the node that the search for \<open>k\<close> finds (\<open>Leaf\<close> when it finds none),
  and the key and value of the node at an address.
\<close>

fun tree_at :: "string \<Rightarrow> 'v tree \<Rightarrow> 'v tree" where
  "tree_at k Leaf = Leaf"
| "tree_at k (Node l a k' v r) =
     (if strcmp k k' = 0 then Node l a k' v r
      else if strcmp k k' < 0 then tree_at k l else tree_at k r)"

fun node_of :: "addr \<Rightarrow> 'v tree \<Rightarrow> (string \<times> 'v) option" where
  "node_of a Leaf = None"
| "node_of a (Node l b k v r) =
     (if a = b then Some (k, v)
      else (case node_of a l of Some x \<Rightarrow> Some x | None \<Rightarrow> node_of a r))"

subsection \<open>The run of demo.c\<close>

text \<open>An environment in which the allocation succeeds and \<^verbatim>\<open>calloc\<close> returns \<open>a\<close>.\<close>

definition alloc_at :: "addr \<Rightarrow> env" where
  "alloc_at a = \<lparr>calloc_ret = Some a, strdup_ok = True, mutex_init_ok = True\<rparr>"

definition out_of_memory :: env where
  "out_of_memory = \<lparr>calloc_ret = None, strdup_ok = False, mutex_init_ok = True\<rparr>"

text \<open>The memory before \<^verbatim>\<open>bt_init\<close>: no node is live, the lock is not yet made.\<close>

definition blank :: "'v memory" where
  "blank = \<lparr>root = None, rwlock = Uninitialised, nodes = Map.empty, events = []\<rparr>"

text \<open>
  The values of demo.c are string literals; \<open>None\<close> is the \<^verbatim>\<open>NULL\<close> that \<^verbatim>\<open>main\<close>
  stores in \<^verbatim>\<open>val\<close> and \<^verbatim>\<open>old\<close> before the calls.
\<close>

definition demo_inserts :: "string option memory option" where
  "demo_inserts = do {
     let (_, s) = bt_init blank (Some ()) 0;
     (_, s) \<leftarrow> bt_add (alloc_at 1) s (Some ()) (Some ''d'') (Some ''delta'');
     (_, s) \<leftarrow> bt_add (alloc_at 2) s (Some ()) (Some ''b'') (Some ''bravo'');
     (_, s) \<leftarrow> bt_add (alloc_at 3) s (Some ()) (Some ''a'') (Some ''alpha'');
     (_, s) \<leftarrow> bt_add (alloc_at 4) s (Some ()) (Some ''c'') (Some ''charlie'');
     (_, s) \<leftarrow> bt_add (alloc_at 5) s (Some ()) (Some ''e'') (Some ''echo'');
     Some s
   }"

text \<open>
  \<^verbatim>\<open>main\<close> after the inserts: the lookup of "c", the delete of "b" with \<^verbatim>\<open>&old\<close>, and
  then a lookup of "b". The result is what the three calls return and the memory.
\<close>

definition demo_run ::
  "(bool \<times> string option option \<times> int \<times> string option option \<times> bool \<times> string option memory) option" where
  "demo_run = do {
     s \<leftarrow> demo_inserts;
     (found_c, val_c, s) \<leftarrow> bt_lookup s (Some ()) (Some ''c'') (Some None);
     (rc, old, s) \<leftarrow> bt_delete (alloc_at 0) s (Some ()) (Some ''b'') (Some None);
     (found_b, _, s) \<leftarrow> bt_lookup s (Some ()) (Some ''b'') (Some None);
     Some (found_c, val_c, rc, old, found_b, s)
   }"

definition demo_tree :: "string option tree" where
  "demo_tree =
     Node (Node (Node Leaf 3 ''a'' (Some ''alpha'') Leaf) 2 ''c'' (Some ''bravo'') Leaf)
       1 ''d'' (Some ''delta'')
       (Node Leaf 5 ''e'' (Some ''echo'') Leaf)"

text \<open>An initialised, empty tree.\<close>

definition empty_tree :: "'v memory" where
  "empty_tree = snd (bt_init blank (Some ()) 0)"

text \<open>A memory at rest that holds three nodes: "b" with the children "a" and "c".\<close>

definition three_nodes :: "string memory" where
  "three_nodes =
     \<lparr>root = Some 1, rwlock = Unlocked,
      nodes = [1 \<mapsto> \<lparr>key = ''b'', val = ''bravo'', left = Some 2, right = Some 3, mtx = False\<rparr>,
               2 \<mapsto> \<lparr>key = ''a'', val = ''alpha'', left = None, right = None, mtx = False\<rparr>,
               3 \<mapsto> \<lparr>key = ''c'', val = ''charlie'', left = None, right = None, mtx = False\<rparr>],
      events = []\<rparr>"

definition three_tree :: "string tree" where
  "three_tree =
     Node (Node Leaf 2 ''a'' ''alpha'' Leaf) 1 ''b'' ''bravo'' (Node Leaf 3 ''c'' ''charlie'' Leaf)"

subsection \<open>Sequences of operations\<close>

text \<open>
  The memories that a sequence of \<^verbatim>\<open>bt_add\<close> and \<^verbatim>\<open>bt_delete\<close> calls reaches from a tree
  that \<^verbatim>\<open>bt_init\<close> has just made. Each call returns, and \<^verbatim>\<open>calloc\<close> never returns the
  address of a live node.
\<close>

inductive reachable :: "'v memory \<Rightarrow> bool" where
  init: "reachable (snd (bt_init s0 (Some ()) 0))"
| add: "reachable s \<Longrightarrow> \<forall>a. calloc_ret e = Some a \<longrightarrow> a \<notin> dom (nodes s) \<Longrightarrow>
        bt_add e s t k v = Some (rc, s') \<Longrightarrow> reachable s'"
| delete: "reachable s \<Longrightarrow> bt_delete e s t k old = Some (res, out, s') \<Longrightarrow> reachable s'"

text \<open>The memory after a call that returns, for writing down a concrete sequence.\<close>

definition after_add :: "env \<Rightarrow> 'v memory \<Rightarrow> string \<Rightarrow> 'v \<Rightarrow> 'v memory" where
  "after_add e s k v = snd (the (bt_add e s (Some ()) (Some k) v))"

definition after_delete :: "env \<Rightarrow> 'v memory \<Rightarrow> string \<Rightarrow> 'v option \<Rightarrow> 'v memory" where
  "after_delete e s k old = snd (snd (the (bt_delete e s (Some ()) (Some k) old)))"

definition four_adds :: "string memory" where
  "four_adds =
     after_add (alloc_at 4)
       (after_add (alloc_at 3)
          (after_add (alloc_at 2)
             (after_add (alloc_at 1) empty_tree ''d'' ''delta'')
             ''b'' ''bravo'')
          ''a'' ''alpha'')
       ''c'' ''charlie''"

definition four_adds_one_delete :: "string memory" where
  "four_adds_one_delete = after_delete (alloc_at 0) four_adds ''b'' None"

subsection \<open>What teardown releases\<close>

text \<open>
  The post-order of a tree lists the nodes of the left subtree, then those of the
  right subtree, then the node itself. \<open>destroy_events\<close> is the record that a
  post-order teardown leaves: for each node, the call of the callback on its value
  when a callback is given, then the free of the node. \<open>released_values\<close> and
  \<open>freed_nodes\<close> read the two kinds of entries off a record, in order.
\<close>

fun destroy_events :: "bool \<Rightarrow> 'v tree \<Rightarrow> 'v event list" where
  "destroy_events fv Leaf = []"
| "destroy_events fv (Node l a k v r) =
     destroy_events fv l @ destroy_events fv r @ (if fv then [Free_value v] else []) @ [Free_node a]"

fun postorder :: "'v tree \<Rightarrow> (addr \<times> 'v) list" where
  "postorder Leaf = []"
| "postorder (Node l a k v r) = postorder l @ postorder r @ [(a, v)]"

fun released_values :: "'v event list \<Rightarrow> 'v list" where
  "released_values [] = []"
| "released_values (Free_value v # es) = v # released_values es"
| "released_values (Free_node a # es) = released_values es"

fun freed_nodes :: "'v event list \<Rightarrow> addr list" where
  "freed_nodes [] = []"
| "freed_nodes (Free_value v # es) = freed_nodes es"
| "freed_nodes (Free_node a # es) = a # freed_nodes es"

subsection \<open>A delete of a key that the tree does not hold\<close>

text \<open>
  The tree with the root "d" and its left child "b", and the memory after the call
  \<^verbatim>\<open>bt_delete(&t, "a", NULL)\<close> on it has returned.
\<close>

definition two_adds :: "string memory" where
  "two_adds =
     after_add (alloc_at 2) (after_add (alloc_at 1) empty_tree ''d'' ''delta'') ''b'' ''bravo''"

definition absent_deleted :: "string memory" where
  "absent_deleted = after_delete (alloc_at 0) two_adds ''a'' None"

section \<open>Basic facts\<close>

lemma strcmp_eq_iff [simp]: "strcmp a b = 0 \<longleftrightarrow> a = b"
  by (induction a b rule: strcmp.induct) auto

lemma strcmp_less_iff [simp]: "strcmp a b < 0 \<longleftrightarrow> a < b"
  by (induction a b rule: strcmp.induct) (auto simp: less_char_def)

lemma is_tree_upd_other [simp]:
  "a \<notin> addrs t \<Longrightarrow> is_tree (h(a := x)) p t = is_tree h p t"
  by (induction t arbitrary: p) (auto split: option.splits)

lemma is_tree_upd_mtx [simp]:
  "h a = Some n \<Longrightarrow> is_tree (h(a \<mapsto> n\<lparr>mtx := b\<rparr>)) p t = is_tree h p t"
  by (induction t arbitrary: p) (auto split: option.splits)

lemma is_tree_addrs_dom: "is_tree h p t \<Longrightarrow> addrs t \<subseteq> dom h"
  by (induction t arbitrary: p) (fastforce split: option.splits)+

subsection \<open>bt\_lookup follows the search path\<close>

lemma lookup_loop_eq:
  "is_tree (nodes s) cur t \<Longrightarrow>
   lookup_loop k s cur out =
     (if \<exists>x\<in>set (path k t). locked (nodes s) x then None
      else Some (tree_find k t \<noteq> None,
                 (case tree_find k t of None \<Rightarrow> out
                  | Some (a, v) \<Rightarrow> if out \<noteq> None then Some v else None),
                 s))"
proof (induction t arbitrary: cur)
  case Leaf
  then show ?case by (subst lookup_loop.simps) simp
next
  case (Node l a k' v r)
  then obtain n where n: "cur = Some a" "nodes s a = Some n" "key n = k'" "val n = v"
     "is_tree (nodes s) (left n) l" "is_tree (nodes s) (right n) r"
    by (auto split: option.splits)
  have la: "locked (nodes s) a = mtx n" using n by (simp add: locked_def)
  show ?case
  proof (cases "mtx n")
    case True
    then show ?thesis using n la
      by (subst lookup_loop.simps) (auto simp: pthread_mutex_lock_def)
  next
    case False
    have restore: "s\<lparr>nodes := (nodes s)(a \<mapsto> n\<lparr>mtx := False\<rparr>)\<rparr> = s"
      using False n by (simp add: map_upd_triv)
    have step: "lookup_loop k s cur out =
      (if k = k' then Some (True, (if out \<noteq> None then Some v else None), s)
       else lookup_loop k s (if k < k' then left n else right n) out)"
      using n False
      by (subst lookup_loop.simps)
         (simp add: pthread_mutex_lock_def pthread_mutex_unlock_def restore map_upd_triv)
    show ?thesis
      using Node.IH(1)[OF n(5)] Node.IH(2)[OF n(6)] False la
      by (simp add: step)
  qed
qed

subsection \<open>bt\_add: the loop inserts or replaces along the search path\<close>


lemma core_upd [simp]: "core (h(a \<mapsto> n)) x = (if x = a then Some (n\<lparr>mtx := False\<rparr>) else core h x)"
  by (simp add: core_def)

lemma core_upd_None [simp]: "core (h(a := None)) x = (if x = a then None else core h x)"
  by (simp add: core_def)

lemma locked_upd [simp]: "locked (h(a \<mapsto> n)) x = (if x = a then mtx n else locked h x)"
  by (simp add: locked_def)

lemma locked_upd_None [simp]: "locked (h(a := None)) x = (x \<noteq> a \<and> locked h x)"
  by (auto simp add: locked_def)

lemma core_eq_fields:
  assumes "core h' x = core h x" "h x = Some n"
  obtains n' where "h' x = Some n'" "key n' = key n" "val n' = val n" "left n' = left n" "right n' = right n"
proof -
  from assms obtain n' where n': "h' x = Some n'" "n'\<lparr>mtx := False\<rparr> = n\<lparr>mtx := False\<rparr>"
    by (auto simp: core_def)
  from n'(2) have "key (n'\<lparr>mtx := False\<rparr>) = key (n\<lparr>mtx := False\<rparr>)" "val (n'\<lparr>mtx := False\<rparr>) = val (n\<lparr>mtx := False\<rparr>)"
    "left (n'\<lparr>mtx := False\<rparr>) = left (n\<lparr>mtx := False\<rparr>)" "right (n'\<lparr>mtx := False\<rparr>) = right (n\<lparr>mtx := False\<rparr>)"
    by simp_all
  then show ?thesis using n'(1) that by simp
qed

lemma is_tree_cong_core:
  "(\<forall>x\<in>addrs t. core h' x = core h x) \<Longrightarrow> is_tree h' p t = is_tree h p t"
proof (induction t arbitrary: p)
  case Leaf
  show ?case by simp
next
  case (Node l a k v r)
  have ca: "core h' a = core h a" using Node.prems by simp
  have IHl: "\<And>p. is_tree h' p l = is_tree h p l" using Node by simp
  have IHr: "\<And>p. is_tree h' p r = is_tree h p r" using Node by simp
  show ?case
  proof (cases "h a")
    case None
    then have "h' a = None" using ca by (simp add: core_def)
    then show ?thesis using None by simp
  next
    case (Some n)
    from core_eq_fields[OF ca Some] obtain n' where
      "h' a = Some n'" "key n' = key n" "val n' = val n" "left n' = left n" "right n' = right n" .
    then show ?thesis using Some IHl IHr by simp
  qed
qed

lemma addrs_tree_add: "addrs (tree_add new k v t) \<subseteq> addrs t \<union> set_option new"
  by (induction t) (auto split: option.splits)

lemma addrs_tree_add_mono: "addrs t \<subseteq> addrs (tree_add new k v t)"
  by (induction t) (auto split: option.splits)

lemma lock_SomeD:
  assumes "pthread_mutex_lock s a = Some s1"
  shows "core (nodes s1) = core (nodes s)" "\<And>x. locked (nodes s1) x = (x = a \<or> locked (nodes s) x)"
    "\<not> locked (nodes s) a" "root s1 = root s" "rwlock s1 = rwlock s" "events s1 = events s"
    "dom (nodes s1) = dom (nodes s)" "a \<in> dom (nodes s)"
  using assms
  by (auto simp: pthread_mutex_lock_def core_def locked_def fun_eq_iff split: option.splits if_splits)

lemma unlock_SomeD:
  assumes "pthread_mutex_unlock s a = Some s1"
  shows "core (nodes s1) = core (nodes s)" "\<And>x. locked (nodes s1) x = (x \<noteq> a \<and> locked (nodes s) x)"
    "root s1 = root s" "rwlock s1 = rwlock s" "events s1 = events s"
    "dom (nodes s1) = dom (nodes s)" "a \<in> dom (nodes s)"
  using assms
  by (auto simp: pthread_mutex_unlock_def core_def locked_def fun_eq_iff split: option.splits if_splits)

lemma unlock_if_SomeD:
  assumes "unlock_if s p = Some s1"
  shows "core (nodes s1) = core (nodes s)" "\<And>x. locked (nodes s1) x = (Some x \<noteq> p \<and> locked (nodes s) x)"
    "root s1 = root s" "rwlock s1 = rwlock s" "events s1 = events s"
    "dom (nodes s1) = dom (nodes s)"
  using assms unlock_SomeD[of s _ s1]
  by (auto simp: unlock_if_def split: option.splits)

lemma add_from_unfold:
  "add_from e k v s parent cur = do {
     n \<leftarrow> nodes s cur;
     if k = key n then do {
       s1 \<leftarrow> store s cur (\<lambda>n. n\<lparr>val := v\<rparr>);
       s2 \<leftarrow> pthread_mutex_unlock s1 cur;
       s3 \<leftarrow> unlock_if s2 parent;
       Some (1, s3)
     } else
       (case (if k < key n then left n else right n) of
          None \<Rightarrow>
            (case node_new e s k v of
               (None, s1) \<Rightarrow> do {
                 s2 \<leftarrow> pthread_mutex_unlock s1 cur;
                 s3 \<leftarrow> unlock_if s2 parent;
                 Some (ENOMEM, s3)
               }
             | (Some a, s1) \<Rightarrow> do {
                 s2 \<leftarrow> store s1 cur
                   (\<lambda>n. if k < key n then n\<lparr>left := Some a\<rparr> else n\<lparr>right := Some a\<rparr>);
                 s3 \<leftarrow> pthread_mutex_unlock s2 cur;
                 s4 \<leftarrow> unlock_if s3 parent;
                 Some (0, s4)
               })
        | Some next \<Rightarrow> do {
            s1 \<leftarrow> pthread_mutex_lock s next;
            s2 \<leftarrow> unlock_if s1 parent;
            add_from e k v s2 (Some cur) next
          })
   }"
  unfolding add_from_def
  by (subst add_loop.simps) (simp split: option.split prod.split bind_split)


lemma store_SomeD:
  assumes "store s a f = Some s1"
  obtains n where "nodes s a = Some n" "s1 = s\<lparr>nodes := (nodes s)(a \<mapsto> f n)\<rparr>"
  using assms by (auto simp: store_def split: option.splits)

lemma is_tree_SomeE:
  assumes "is_tree h (Some a) t"
  obtains l k v r n where "t = Node l a k v r" "h a = Some n" "key n = k" "val n = v"
    "is_tree h (left n) l" "is_tree h (right n) r"
    "a \<notin> addrs l" "a \<notin> addrs r" "addrs l \<inter> addrs r = {}"
  using assms by (cases t) (auto split: option.splits)

lemma is_tree_NoneD: "is_tree h None t \<Longrightarrow> t = Leaf"
  by (cases t) auto

lemma add_from_post:
  assumes "is_tree (nodes s) (Some cur) t"
    and "\<forall>a. new_node e = Some a \<longrightarrow> a \<notin> dom (nodes s)"
    and "add_from e k v s parent cur = Some (rc, s')"
  shows "add_post e k v s parent cur t rc s'"
  using assms
proof (induction t arbitrary: s parent cur)
  case Leaf
  then show ?case by simp
next
  case (Node l a k' v' r)
  from Node.prems(1) obtain n where n: "cur = a" "nodes s a = Some n" "key n = k'" "val n = v'"
    "is_tree (nodes s) (left n) l" "is_tree (nodes s) (right n) r"
    "a \<notin> addrs l" "a \<notin> addrs r" "addrs l \<inter> addrs r = {}"
    by (auto split: option.splits)
  note fresh = Node.prems(2)
  note run = Node.prems(3)[unfolded n(1)]
  have dom_t: "addrs l \<subseteq> dom (nodes s)" "addrs r \<subseteq> dom (nodes s)"
    using is_tree_addrs_dom n(5,6) by blast+
  show ?case
  proof (cases "k = k'")
    case True
    from run True n obtain s1 s2 where
      s1: "store s a (\<lambda>n. n\<lparr>val := v\<rparr>) = Some s1" and
      s2: "pthread_mutex_unlock s1 a = Some s2" and
      s3: "unlock_if s2 parent = Some s'" and rc: "rc = 1"
      by (subst (asm) add_from_unfold) (auto split: bind_splits)
    from s1 n have s1': "s1 = s\<lparr>nodes := (nodes s)(a \<mapsto> n\<lparr>val := v\<rparr>)\<rparr>"
      by (auto elim: store_SomeD)
    have c: "core (nodes s') = core (nodes s1)"
      using unlock_SomeD(1)[OF s2] unlock_if_SomeD(1)[OF s3] by simp
    have "is_tree (nodes s1) (Some a) (Node l a k' v r)"
      using n s1' by simp
    then have "is_tree (nodes s') (Some a) (Node l a k' v r)"
      by (subst is_tree_cong_core[of _ "nodes s'" "nodes s1"]) (simp_all add: c)
    moreover have "\<forall>x. locked (nodes s') x = (x \<noteq> a \<and> Some x \<noteq> parent \<and> locked (nodes s) x)"
      using unlock_SomeD(2)[OF s2] unlock_if_SomeD(2)[OF s3] s1' n by (auto simp: locked_def)
    moreover have "\<forall>x. x \<noteq> a \<longrightarrow> core (nodes s') x = core (nodes s) x"
      using c s1' by simp
    moreover have "root s' = root s \<and> rwlock s' = rwlock s \<and> events s' = events s"
      using unlock_SomeD(3-5)[OF s2] unlock_if_SomeD(3-5)[OF s3] s1' by simp
    ultimately show ?thesis using True rc n(1) by (simp add: add_post_def)
  next
    case False
    define c where "c = (if k < k' then left n else right n)"
    define sub where "sub = (if k < k' then l else r)"
    define other where "other = (if k < k' then r else l)"
    define co where "co = (if k < k' then right n else left n)"
    have sub: "is_tree (nodes s) c sub" "a \<notin> addrs sub" "addrs sub \<subseteq> dom (nodes s)"
      "addrs sub \<inter> addrs other = {}" "a \<notin> addrs other" "addrs other \<subseteq> dom (nodes s)"
      "is_tree (nodes s) co other"
      using n dom_t by (auto simp: c_def sub_def other_def co_def)
    let ?t' = "tree_add (new_node e) k v (Node l a k' v' r)"
    define sub' where "sub' = tree_add (new_node e) k v sub"
    have tadd: "?t' = (if k < k' then Node sub' a k' v' other else Node other a k' v' sub')"
      using False by (simp add: sub_def sub'_def other_def)
    have trc: "add_rc (new_node e) k (Node l a k' v' r) = add_rc (new_node e) k sub"
      using False by (simp add: sub_def)
    have addrs': "addrs ?t' = insert a (addrs sub' \<union> addrs other)"
      unfolding tadd by auto
    have sub': "addrs sub' \<subseteq> addrs sub \<union> set_option (new_node e)"
      unfolding sub'_def by (rule addrs_tree_add)
    have nw: "\<forall>b. new_node e = Some b \<longrightarrow> b \<noteq> a \<and> b \<notin> addrs other"
      using fresh n(2) sub(6) by auto
    have disj: "a \<notin> addrs sub'" "addrs sub' \<inter> addrs other = {}"
      using sub' sub(2,4) nw by (cases "new_node e"; auto)+
    have build: "is_tree (nodes s') (Some a) ?t'"
      if "core (nodes s') a = Some (n\<lparr>mtx := False\<rparr>\<lparr>left := (if k < k' then c' else left n),
             right := (if k < k' then right n else c')\<rparr>)"
        and "is_tree (nodes s') c' sub'" and "\<forall>x\<in>addrs other. core (nodes s') x = core (nodes s) x"
      for c' s'
    proof -
      from that(1) obtain n' where n': "nodes s' a = Some n'"
        "n'\<lparr>mtx := False\<rparr> = n\<lparr>mtx := False\<rparr>\<lparr>left := (if k < k' then c' else left n),
             right := (if k < k' then right n else c')\<rparr>"
        by (auto simp: core_def)
      from n'(2) have "key (n'\<lparr>mtx := False\<rparr>) = key n" "val (n'\<lparr>mtx := False\<rparr>) = val n"
        "left (n'\<lparr>mtx := False\<rparr>) = (if k < k' then c' else left n)"
        "right (n'\<lparr>mtx := False\<rparr>) = (if k < k' then right n else c')"
        by simp_all
      then have f: "key n' = k'" "val n' = v'" "left n' = (if k < k' then c' else left n)"
        "right n' = (if k < k' then right n else c')"
        using n(3,4) by simp_all
      have o: "is_tree (nodes s') co other"
        using sub(7) that(3) by (subst is_tree_cong_core[of _ "nodes s'" "nodes s"]) simp_all
      show ?thesis unfolding tadd using n' f o that(2) disj sub(5)
        by (auto simp: co_def Int_commute)
    qed
    show ?thesis
    proof (cases c)
      case None
      then have subL: "sub = Leaf" using sub(1) by (simp add: is_tree_NoneD)
      show ?thesis
      proof (cases "new_node e")
        case nn: None
        then have nnew: "node_new e s k v = (None, s)"
          by (auto simp: node_new_def new_node_def split: option.splits)
        from run False n None nnew obtain s2 where
          s2: "pthread_mutex_unlock s a = Some s2" and
          s3: "unlock_if s2 parent = Some s'" and rc: "rc = ENOMEM"
          by (subst (asm) add_from_unfold) (auto simp: c_def split: bind_splits)
        have c: "core (nodes s') = core (nodes s)"
          using unlock_SomeD(1)[OF s2] unlock_if_SomeD(1)[OF s3] by simp
        have same: "?t' = Node l a k' v' r"
          using nn subL False by (auto simp: sub_def split: if_splits)
        have F1: "is_tree (nodes s') (Some a) ?t'"
          unfolding same using Node.prems(1) n(1)
          by (subst is_tree_cong_core[of _ "nodes s'" "nodes s"]) (simp_all add: c)
        have F2: "rc = add_rc (new_node e) k (Node l a k' v' r)"
          unfolding trc using rc nn subL by simp
        have F4: "\<forall>x. locked (nodes s') x = (x \<noteq> a \<and> Some x \<noteq> parent \<and> locked (nodes s) x)"
          using unlock_SomeD(2)[OF s2] unlock_if_SomeD(2)[OF s3] by auto
        have F5: "root s' = root s \<and> rwlock s' = rwlock s \<and> events s' = events s"
          using unlock_SomeD(3-5)[OF s2] unlock_if_SomeD(3-5)[OF s3] by simp
        show ?thesis unfolding add_post_def n(1) using F1 F2 F4 F5 c by simp
      next
        case nn: (Some b)
        then have nnew: "node_new e s k v = (Some b,
             s\<lparr>nodes := (nodes s)(b \<mapsto> \<lparr>key = k, val = v, left = None, right = None, mtx = False\<rparr>)\<rparr>)"
          by (auto simp: node_new_def new_node_def split: option.splits if_splits)
        have b: "b \<notin> dom (nodes s)" using fresh nn by simp
        then have ba: "b \<noteq> a" "b \<notin> addrs other" using n(2) sub(6) by auto
        define s1 where "s1 = s\<lparr>nodes := (nodes s)(b \<mapsto> \<lparr>key = k, val = v, left = None, right = None, mtx = False\<rparr>,
            a \<mapsto> (if k < k' then n\<lparr>left := Some b\<rparr> else n\<lparr>right := Some b\<rparr>))\<rparr>"
        from run False n None nnew ba obtain s3 where
          s3: "pthread_mutex_unlock s1 a = Some s3" and
          s4: "unlock_if s3 parent = Some s'" and rc: "rc = 0"
          by (subst (asm) add_from_unfold) (auto simp: c_def s1_def store_def split: bind_splits)
        have c: "core (nodes s') = core (nodes s1)"
          using unlock_SomeD(1)[OF s3] unlock_if_SomeD(1)[OF s4] by simp
        have sub'_eq: "sub' = Node Leaf b k v Leaf" using nn subL by (simp add: sub'_def)
        have F1: "is_tree (nodes s') (Some a) ?t'"
        proof (rule build[of _ "Some b"])
          show "core (nodes s') a = Some (n\<lparr>mtx := False\<rparr>\<lparr>left := (if k < k' then Some b else left n),
             right := (if k < k' then right n else Some b)\<rparr>)"
            using None by (simp add: c s1_def c_def)
          show "is_tree (nodes s') (Some b) sub'"
            unfolding sub'_eq using ba
            by (subst is_tree_cong_core[of _ "nodes s'" "nodes s1"]) (simp_all add: c s1_def)
          show "\<forall>x\<in>addrs other. core (nodes s') x = core (nodes s) x"
            using ba sub(5) by (auto simp: c s1_def)
        qed
        have F2: "rc = add_rc (new_node e) k (Node l a k' v' r)"
          unfolding trc using rc nn subL by simp
        have F3: "\<forall>x. x \<notin> addrs ?t' \<longrightarrow> core (nodes s') x = core (nodes s) x"
          unfolding addrs' sub'_eq by (simp add: c s1_def)
        have F4: "\<forall>x. locked (nodes s') x = (x \<noteq> a \<and> Some x \<noteq> parent \<and> locked (nodes s) x)"
          using unlock_SomeD(2)[OF s3] unlock_if_SomeD(2)[OF s4] b
          by (auto simp: s1_def locked_def split: option.splits)
        have F5: "root s' = root s \<and> rwlock s' = rwlock s \<and> events s' = events s"
          using unlock_SomeD(3-5)[OF s3] unlock_if_SomeD(3-5)[OF s4] by (simp add: s1_def)
        show ?thesis unfolding add_post_def n(1) using F1 F2 F3 F4 F5 by simp
      qed
    next
      case (Some nx)
      from run False n Some obtain s1 s2 where
        s1: "pthread_mutex_lock s nx = Some s1" and
        s2: "unlock_if s1 parent = Some s2" and
        rec: "add_from e k v s2 (Some a) nx = Some (rc, s')"
        by (subst (asm) add_from_unfold) (auto simp: c_def split: bind_splits)
      have c2: "core (nodes s2) = core (nodes s)"
        using lock_SomeD(1)[OF s1] unlock_if_SomeD(1)[OF s2] by simp
      have d2: "dom (nodes s2) = dom (nodes s)"
        using lock_SomeD(7)[OF s1] unlock_if_SomeD(6)[OF s2] by simp
      have t2: "is_tree (nodes s2) (Some nx) sub"
        using sub(1) Some by (subst is_tree_cong_core[of _ "nodes s2" "nodes s"]) (simp_all add: c2)
      have fresh2: "\<forall>a. new_node e = Some a \<longrightarrow> a \<notin> dom (nodes s2)"
        using fresh d2 by simp
      have IH: "add_post e k v s2 (Some a) nx sub rc s'"
      proof (cases "k < k'")
        case True
        then show ?thesis using Node.IH(1)[OF _ fresh2 rec] t2 by (simp add: sub_def)
      next
        case False
        then show ?thesis using Node.IH(2)[OF _ fresh2 rec] t2 by (simp add: sub_def)
      qed
      have IH1: "is_tree (nodes s') (Some nx) sub'" 
        and IH2: "rc = add_rc (new_node e) k sub"
        and IH3: "\<forall>x. x \<notin> addrs sub' \<longrightarrow> core (nodes s') x = core (nodes s) x"
        and IH4: "\<forall>x. locked (nodes s') x = (x \<noteq> nx \<and> x \<noteq> a \<and> locked (nodes s2) x)"
        and IH5: "root s' = root s2 \<and> rwlock s' = rwlock s2 \<and> events s' = events s2"
        using IH c2 by (simp_all add: add_post_def sub'_def)
      have F1: "is_tree (nodes s') (Some a) ?t'"
      proof (rule build[of _ "Some nx"])
        show "core (nodes s') a = Some (n\<lparr>mtx := False\<rparr>\<lparr>left := (if k < k' then Some nx else left n),
             right := (if k < k' then right n else Some nx)\<rparr>)"
          using IH3 disj(1) n(2) Some by (auto simp: c_def core_def)
        show "is_tree (nodes s') (Some nx) sub'" by (rule IH1)
        show "\<forall>x\<in>addrs other. core (nodes s') x = core (nodes s) x"
          using IH3 disj(2) by auto
      qed
      have F2: "rc = add_rc (new_node e) k (Node l a k' v' r)"
        unfolding trc by (rule IH2)
      have F3: "\<forall>x. x \<notin> addrs ?t' \<longrightarrow> core (nodes s') x = core (nodes s) x"
        unfolding addrs' using IH3 by simp
      have F4: "\<forall>x. locked (nodes s') x = (x \<noteq> a \<and> Some x \<noteq> parent \<and> locked (nodes s) x)"
        using IH4 lock_SomeD(2,3)[OF s1] unlock_if_SomeD(2)[OF s2] by auto
      have F5: "root s' = root s \<and> rwlock s' = rwlock s \<and> events s' = events s"
        using IH5 lock_SomeD(4-6)[OF s1] unlock_if_SomeD(3-5)[OF s2] by simp
      show ?thesis unfolding add_post_def n(1) using F1 F2 F3 F4 F5 by simp
    qed
  qed
qed


lemma lock_total:
  "a \<in> dom (nodes s) \<Longrightarrow> \<not> locked (nodes s) a \<Longrightarrow> \<exists>s1. pthread_mutex_lock s a = Some s1"
  by (auto simp: pthread_mutex_lock_def locked_def)

lemma unlock_total: "a \<in> dom (nodes s) \<Longrightarrow> \<exists>s1. pthread_mutex_unlock s a = Some s1"
  by (auto simp: pthread_mutex_unlock_def)

lemma unlock_if_total:
  "\<forall>a. p = Some a \<longrightarrow> a \<in> dom (nodes s) \<Longrightarrow> \<exists>s1. unlock_if s p = Some s1"
  by (cases p) (auto simp: unlock_if_def pthread_mutex_unlock_def)

lemma store_total: "a \<in> dom (nodes s) \<Longrightarrow> \<exists>s1. store s a f = Some s1"
  by (auto simp: store_def)

lemma store_dom: "store s a f = Some s1 \<Longrightarrow> dom (nodes s1) = dom (nodes s)"
  by (auto simp: store_def split: option.splits if_splits)

lemma add_from_total:
  assumes "is_tree (nodes s) (Some cur) t"
    and "\<forall>x\<in>addrs t. x \<noteq> cur \<longrightarrow> \<not> locked (nodes s) x"
    and "\<forall>p. parent = Some p \<longrightarrow> p \<in> dom (nodes s)"
  shows "\<exists>res. add_from e k v s parent cur = Some res"
  using assms
proof (induction t arbitrary: s parent cur)
  case Leaf
  then show ?case by simp
next
  case (Node l a k' v' r)
  from Node.prems(1) obtain n where n: "cur = a" "nodes s a = Some n" "key n = k'" "val n = v'"
    "is_tree (nodes s) (left n) l" "is_tree (nodes s) (right n) r"
    "a \<notin> addrs l" "a \<notin> addrs r" "addrs l \<inter> addrs r = {}"
    by (auto split: option.splits)
  have a_dom: "a \<in> dom (nodes s)" using n(2) by auto
  note par = Node.prems(3)
  show ?case
  proof (cases "k = k'")
    case True
    obtain s1 where s1: "store s a (\<lambda>n. n\<lparr>val := v\<rparr>) = Some s1"
      using store_total[OF a_dom] by blast
    have d1: "dom (nodes s1) = dom (nodes s)" using store_dom[OF s1] .
    obtain s2 where s2: "pthread_mutex_unlock s1 a = Some s2"
      using unlock_total[of a s1] a_dom d1 by auto
    obtain s3 where s3: "unlock_if s2 parent = Some s3"
      using unlock_if_total[of parent s2] par d1 unlock_SomeD(6)[OF s2] by auto
    show ?thesis unfolding n(1)
      by (subst add_from_unfold) (simp add: n True s1 s2 s3)
  next
    case False
    define c where "c = (if k < k' then left n else right n)"
    define sub where "sub = (if k < k' then l else r)"
    have sub: "is_tree (nodes s) c sub" "a \<notin> addrs sub" "addrs sub \<subseteq> addrs (Node l a k' v' r)"
      using n by (auto simp: c_def sub_def)
    show ?thesis
    proof (cases c)
      case None
      show ?thesis
      proof (cases "node_new e s k v")
        case (Pair new s1)
        then have d1: "dom (nodes s) \<subseteq> dom (nodes s1)"
          by (auto simp: node_new_def split: option.splits if_splits)
        show ?thesis
        proof (cases new)
          case nn: None
          then have "s1 = s" using Pair by (auto simp: node_new_def split: option.splits if_splits)
          obtain s2 where s2: "pthread_mutex_unlock s a = Some s2"
            using unlock_total[OF a_dom] by blast
          obtain s3 where s3: "unlock_if s2 parent = Some s3"
            using unlock_if_total[of parent s2] par unlock_SomeD(6)[OF s2] by auto
          show ?thesis unfolding n(1) using None Pair nn \<open>s1 = s\<close>
            by (subst add_from_unfold) (simp add: n False s2 s3 c_def)
        next
          case nn: (Some b)
          obtain s2 where s2: "store s1 a
                   (\<lambda>n. if k < key n then n\<lparr>left := Some b\<rparr> else n\<lparr>right := Some b\<rparr>) = Some s2"
            using store_total[of a s1] a_dom d1 by blast
          have d2: "dom (nodes s2) = dom (nodes s1)" using store_dom[OF s2] .
          obtain s3 where s3: "pthread_mutex_unlock s2 a = Some s3"
            using unlock_total[of a s2] a_dom d1 d2 by auto
          have "\<forall>a. parent = Some a \<longrightarrow> a \<in> dom (nodes s3)"
            using par d1 d2 unlock_SomeD(6)[OF s3] by auto
          then obtain s4 where s4: "unlock_if s3 parent = Some s4"
            using unlock_if_total[of parent s3] by blast
          show ?thesis unfolding n(1) using None Pair nn
            by (subst add_from_unfold) (simp add: n False s2 s3 s4 c_def)
        qed
      qed
    next
      case (Some nx)
      then have nx: "nx \<in> addrs sub" "nx \<in> dom (nodes s)"
        using sub(1) by (auto elim!: is_tree_SomeE)
      then have "nx \<noteq> a" "\<not> locked (nodes s) nx"
        using sub(2,3) Node.prems(2) n(1) by auto
      then obtain s1 where s1: "pthread_mutex_lock s nx = Some s1"
        using lock_total[of nx s] nx(2) by blast
      obtain s2 where s2: "unlock_if s1 parent = Some s2"
        using unlock_if_total[of parent s1] par lock_SomeD(7)[OF s1] by auto
      have c2: "core (nodes s2) = core (nodes s)"
        using lock_SomeD(1)[OF s1] unlock_if_SomeD(1)[OF s2] by simp
      have d2: "dom (nodes s2) = dom (nodes s)"
        using lock_SomeD(7)[OF s1] unlock_if_SomeD(6)[OF s2] by simp
      have t2: "is_tree (nodes s2) (Some nx) sub"
        using sub(1) Some by (subst is_tree_cong_core[of _ "nodes s2" "nodes s"]) (simp_all add: c2)
      have "\<forall>x\<in>addrs sub. \<not> locked (nodes s) x"
        using Node.prems(2)[unfolded n(1)] sub(2,3) by (metis subsetD)
      then have l2: "\<forall>x\<in>addrs sub. x \<noteq> nx \<longrightarrow> \<not> locked (nodes s2) x"
        using lock_SomeD(2)[OF s1] unlock_if_SomeD(2)[OF s2] by simp
      have p2: "\<forall>p. Some a = Some p \<longrightarrow> p \<in> dom (nodes s2)" using a_dom d2 by simp
      have "\<exists>res. add_from e k v s2 (Some a) nx = Some res"
      proof (cases "k < k'")
        case True
        then show ?thesis using Node.IH(1)[OF _ _ p2] t2 l2 by (simp add: sub_def)
      next
        case False
        then show ?thesis using Node.IH(2)[OF _ _ p2] t2 l2 by (simp add: sub_def)
      qed
      then show ?thesis unfolding n(1) using Some
        by (subst add_from_unfold) (simp add: n False s1 s2 c_def)
    qed
  qed
qed

lemma wrlock_SomeD:
  assumes "pthread_rwlock_wrlock s = Some s1"
  shows "rwlock s = Unlocked" "s1 = s\<lparr>rwlock := WriteLocked\<rparr>"
  using assms by (auto simp: pthread_rwlock_wrlock_def split: if_splits)

lemma rwunlock_SomeD:
  assumes "pthread_rwlock_unlock s = Some s1" and "rwlock s = WriteLocked"
  shows "s1 = s\<lparr>rwlock := Unlocked\<rparr>"
  using assms by (auto simp: pthread_rwlock_unlock_def)

lemma bt_add_unfold:
  "bt_add e s (Some ()) (Some k) v = do {
        s1 \<leftarrow> pthread_rwlock_wrlock s;
        (rc, s3) \<leftarrow>
          (case root s1 of
             None \<Rightarrow>
               (case node_new e s1 k v of
                  (None, s2) \<Rightarrow> Some (ENOMEM, s2)
                | (Some a, s2) \<Rightarrow> Some (0, s2\<lparr>root := Some a\<rparr>))
           | Some cur \<Rightarrow> do {
               s2 \<leftarrow> pthread_mutex_lock s1 cur;
               add_from e k v s2 None cur
             });
        s4 \<leftarrow> pthread_rwlock_unlock s3;
        Some (rc, s4)
      }"
  unfolding bt_add_def option.sel by simp

lemma bt_add_post:
  assumes T: "is_tree (nodes s) (root s) T"
    and fresh: "\<forall>a. new_node e = Some a \<longrightarrow> a \<notin> dom (nodes s)"
    and run: "bt_add e s (Some ()) (Some k) v = Some (rc, s')"
  shows "is_tree (nodes s') (root s') (tree_add (new_node e) k v T) \<and>
     rc = add_rc (new_node e) k T \<and>
     (\<forall>x. x \<notin> addrs (tree_add (new_node e) k v T) \<longrightarrow> core (nodes s') x = core (nodes s) x) \<and>
     (\<forall>x. locked (nodes s') x = locked (nodes s) x) \<and>
     rwlock s = Unlocked \<and> rwlock s' = Unlocked \<and> events s' = events s"
proof -
  from run obtain s1 s3 where s1: "pthread_rwlock_wrlock s = Some s1"
    and body: "(case root s1 of
             None \<Rightarrow>
               (case node_new e s1 k v of
                  (None, s2) \<Rightarrow> Some (ENOMEM, s2)
                | (Some a, s2) \<Rightarrow> Some (0, s2\<lparr>root := Some a\<rparr>))
           | Some cur \<Rightarrow> do {
               s2 \<leftarrow> pthread_mutex_lock s1 cur;
               add_from e k v s2 None cur
             }) = Some (rc, s3)"
    and s4: "pthread_rwlock_unlock s3 = Some s'"
    by (auto simp: bt_add_unfold split: bind_splits)
  note w = wrlock_SomeD[OF s1]
  have s'I: "s' = s3\<lparr>rwlock := Unlocked\<rparr>" if "rwlock s3 = WriteLocked"
    using rwunlock_SomeD[OF s4 that] .
  show ?thesis
  proof (cases "root s")
    case None
    then have TL: "T = Leaf" using T by (simp add: is_tree_NoneD)
    show ?thesis
    proof (cases "new_node e")
      case nn: None
      then have "node_new e s1 k v = (None, s1)"
        by (auto simp: node_new_def new_node_def split: option.splits)
      then have rc: "rc = ENOMEM" "s3 = s1" using body None w by auto
      then have s': "s' = s3\<lparr>rwlock := Unlocked\<rparr>" using s'I w by simp
      show ?thesis using rc s' w None TL nn T by simp
    next
      case nn: (Some b)
      then have "node_new e s1 k v = (Some b,
             s1\<lparr>nodes := (nodes s1)(b \<mapsto> \<lparr>key = k, val = v, left = None, right = None, mtx = False\<rparr>)\<rparr>)"
        by (auto simp: node_new_def new_node_def split: option.splits if_splits)
      then have rc: "rc = 0" "s3 = s1\<lparr>nodes := (nodes s1)(b \<mapsto> \<lparr>key = k, val = v, left = None, right = None, mtx = False\<rparr>),
          root := Some b\<rparr>" using body None w by auto
      then have s': "s' = s3\<lparr>rwlock := Unlocked\<rparr>" using s'I w by simp
      have "\<not> locked (nodes s) b" using fresh nn by (auto simp: locked_def)
      then show ?thesis using rc s' w None TL nn by auto
    qed
  next
    case (Some cur)
    from body Some w obtain s2 where s2: "pthread_mutex_lock s1 cur = Some s2"
      and af: "add_from e k v s2 None cur = Some (rc, s3)"
      by (auto split: bind_splits)
    note l = lock_SomeD[OF s2]
    have t2: "is_tree (nodes s2) (Some cur) T"
      using T Some w by (subst is_tree_cong_core[of _ "nodes s2" "nodes s"]) (simp_all add: l(1))
    have f2: "\<forall>a. new_node e = Some a \<longrightarrow> a \<notin> dom (nodes s2)"
      using fresh l(7) w by simp
    from add_from_post[OF t2 f2 af] have p: "add_post e k v s2 None cur T rc s3" .
    then have "rwlock s3 = WriteLocked" using w l(5) by (simp add: add_post_def)
    then have s': "s' = s3\<lparr>rwlock := Unlocked\<rparr>" by (rule s'I)
    from p show ?thesis using s' w Some l
      by (auto simp: add_post_def)
  qed
qed

lemma bt_add_total:
  assumes T: "is_tree (nodes s) (root s) T"
    and unl: "\<forall>x\<in>addrs T. \<not> locked (nodes s) x"
    and rw: "rwlock s = Unlocked"
    and fresh: "\<forall>a. new_node e = Some a \<longrightarrow> a \<notin> dom (nodes s)"
  shows "\<exists>res. bt_add e s (Some ()) (Some k) v = Some res"
proof -
  define s1 where "s1 = s\<lparr>rwlock := WriteLocked\<rparr>"
  have s1: "pthread_rwlock_wrlock s = Some s1" using rw by (simp add: pthread_rwlock_wrlock_def s1_def)
  have un: "\<exists>s4. pthread_rwlock_unlock s3 = Some s4" if "rwlock s3 = WriteLocked" for s3 :: "'a memory"
    using that by (simp add: pthread_rwlock_unlock_def)
  show ?thesis
  proof (cases "root s")
    case None
    obtain new s2 where nn: "node_new e s1 k v = (new, s2)" by (cases "node_new e s1 k v")
    then have "rwlock s2 = WriteLocked"
      by (auto simp: node_new_def s1_def split: option.splits if_splits)
    then show ?thesis using None nn s1
      by (cases new) (auto simp: bt_add_unfold s1_def pthread_rwlock_unlock_def)
  next
    case (Some cur)
    have cur: "cur \<in> addrs T" "cur \<in> dom (nodes s)" using T Some by (auto elim!: is_tree_SomeE)
    then obtain s2 where s2: "pthread_mutex_lock s1 cur = Some s2"
      using lock_total[of cur s1] unl by (auto simp: s1_def)
    note l = lock_SomeD[OF s2]
    have t2: "is_tree (nodes s2) (Some cur) T"
      using T Some by (subst is_tree_cong_core[of _ "nodes s2" "nodes s"]) (simp_all add: l(1) s1_def)
    have "\<forall>x\<in>addrs T. x \<noteq> cur \<longrightarrow> \<not> locked (nodes s2) x"
      using unl l(2) by (simp add: s1_def)
    from add_from_total[OF t2 this, of None e k v] obtain rc s3 where
      af: "add_from e k v s2 None cur = Some (rc, s3)" by auto
    have f2: "\<forall>a. new_node e = Some a \<longrightarrow> a \<notin> dom (nodes s2)"
      using fresh l(7) by (simp add: s1_def)
    have "rwlock s3 = WriteLocked"
      using add_from_post[OF t2 f2 af] l(5) by (simp add: s1_def add_post_def)
    then show ?thesis using Some s1 s2 af un[of s3]
      by (auto simp: bt_add_unfold s1_def)
  qed
qed

subsection \<open>bt\_delete: the splice of the found node\<close>


lemma min_node_addrs: "min_node u = Some (sa, sk, sv) \<Longrightarrow> sa \<in> addrs u"
  by (induction u) (auto split: if_splits)

lemma min_parent_addrs: "min_parent p u \<in> insert p (addrs u)"
proof (induction u arbitrary: p)
  case Leaf
  show ?case by simp
next
  case (Node l a k v r)
  show ?case using Node.IH(1)[of a] by auto
qed

lemma addrs_del_min: "addrs (del_min u) \<subseteq> addrs u"
  by (induction u) auto

lemma min_node_Some: "u \<noteq> Leaf \<Longrightarrow> \<exists>sa sk sv. min_node u = Some (sa, sk, sv)"
  by (induction u) auto

lemma addrs_del_min_eq:
  "is_tree h c u \<Longrightarrow> min_node u = Some (sa, sk, sv) \<Longrightarrow> addrs (del_min u) = addrs u - {sa}"
proof (induction u arbitrary: c)
  case Leaf
  then show ?case by simp
next
  case (Node l a k v r)
  show ?case
  proof (cases "l = Leaf")
    case True
    then show ?thesis using Node.prems by (auto split: option.splits)
  next
    case False
    from Node.prems(1) obtain n where n: "h a = Some n" "is_tree h (left n) l" "a \<notin> addrs l"
      "a \<notin> addrs r" "addrs l \<inter> addrs r = {}"
      by (auto split: option.splits)
    have m: "min_node l = Some (sa, sk, sv)" using Node.prems(2) False by simp
    have "addrs (del_min l) = addrs l - {sa}" using Node.IH(1)[OF n(2) m] .
    moreover have "sa \<in> addrs l" using min_node_addrs[OF m] .
    ultimately show ?thesis using False n by auto
  qed
qed

lemma splice_min:
  assumes "is_tree h (Some c) u" "min_node u = Some (sa, sk, sv)" "h sa = Some sn" "p \<notin> addrs u"
    and "\<forall>x\<in>addrs u. x \<noteq> sa \<longrightarrow> x \<noteq> min_parent p u \<longrightarrow> core h' x = core h x"
    and "min_parent p u \<noteq> p \<longrightarrow>
           (\<exists>spn. h (min_parent p u) = Some spn \<and>
                  core h' (min_parent p u) = Some (spn\<lparr>left := right sn, mtx := False\<rparr>))"
  shows "is_tree h' (if min_parent p u = p then right sn else Some c) (del_min u)"
  using assms
proof (induction u arbitrary: c p)
  case Leaf
  then show ?case by simp
next
  case (Node l a k v r)
  from Node.prems(1) obtain n where n: "c = a" "h a = Some n" "key n = k" "val n = v"
    "is_tree h (left n) l" "is_tree h (right n) r"
    "a \<notin> addrs l" "a \<notin> addrs r" "addrs l \<inter> addrs r = {}"
    by (auto split: option.splits)
  show ?case
  proof (cases "l = Leaf")
    case True
    then have sa: "sa = a" "sn = n" using Node.prems(2,3) n(2) by auto
    have "is_tree h' (right n) r"
      using n(6,8) Node.prems(4,5) True sa
      by (subst is_tree_cong_core[of _ h' h]) auto
    then show ?thesis using True sa by simp
  next
    case False
    then obtain cl where cl: "left n = Some cl" using n(5) by (cases l; cases "left n") auto
    let ?sp = "min_parent a l"
    have m: "min_node l = Some (sa, sk, sv)" using Node.prems(2) False by simp
    have sa: "sa \<in> addrs l" using min_node_addrs[OF m] .
    have sp: "?sp \<in> insert a (addrs l)" using min_parent_addrs .
    have pa: "p \<noteq> a" "min_parent p (Node l a k v r) = ?sp" "?sp \<noteq> p"
      using Node.prems(4) False sp by auto
    have IH: "is_tree h' (if ?sp = a then right sn else Some cl) (del_min l)"
    proof (rule Node.IH(1)[OF _ m Node.prems(3) n(7)])
      show "is_tree h (Some cl) l" using n(5) cl by simp
      show "\<forall>x\<in>addrs l. x \<noteq> sa \<longrightarrow> x \<noteq> ?sp \<longrightarrow> core h' x = core h x"
        using Node.prems(5) pa(2) by simp
      show "?sp \<noteq> a \<longrightarrow> (\<exists>spn. h ?sp = Some spn \<and> core h' ?sp = Some (spn\<lparr>left := right sn, mtx := False\<rparr>))"
        using Node.prems(6) pa by simp
    qed
    have r': "is_tree h' (right n) r"
    proof (subst is_tree_cong_core[of _ h' h])
      show "\<forall>x\<in>addrs r. core h' x = core h x"
        using Node.prems(5) pa(2) sa sp n(8,9) by auto
      show "is_tree h (right n) r" by (rule n(6))
    qed
    have "\<exists>n'. h' a = Some n' \<and> key n' = k \<and> val n' = v \<and>
        left n' = (if ?sp = a then right sn else Some cl) \<and> right n' = right n"
    proof (cases "?sp = a")
      case True
      with Node.prems(6) pa n(2) have "core h' a = Some (n\<lparr>left := right sn, mtx := False\<rparr>)"
        by auto
      then obtain n' where n': "h' a = Some n'" "n'\<lparr>mtx := False\<rparr> = n\<lparr>left := right sn, mtx := False\<rparr>"
        by (auto simp: core_def)
      from n'(2) have "key (n'\<lparr>mtx := False\<rparr>) = key n" "val (n'\<lparr>mtx := False\<rparr>) = val n"
        "left (n'\<lparr>mtx := False\<rparr>) = right sn" "right (n'\<lparr>mtx := False\<rparr>) = right n"
        by simp_all
      then show ?thesis using n'(1) n(3,4) True by simp
    next
      case F: False
      have "core h' a = core h a"
        using Node.prems(5) pa(2) sa n(7) F by auto
      from core_eq_fields[OF this n(2)] obtain n' where "h' a = Some n'" "key n' = key n"
        "val n' = val n" "left n' = left n" "right n' = right n" .
      then show ?thesis using n(3,4) cl F by simp
    qed
    then show ?thesis using IH r' n(1,7,8,9) False pa addrs_del_min[of l]
      by (auto split: if_splits)
  qed
qed


lemma find_min_loop_post:
  assumes "is_tree (nodes s) (Some cur) u"
    and "find_min_loop s parent cur = Some (s1, sp, succ)"
    and "locked (nodes s) parent" "locked (nodes s) cur" "parent \<notin> addrs u"
  shows "map_option fst (min_node u) = Some succ \<and> sp = min_parent parent u \<and>
    core (nodes s1) = core (nodes s) \<and>
    (\<forall>x. locked (nodes s1) x = (x = sp \<or> x = succ \<or> (x \<noteq> parent \<and> x \<noteq> cur \<and> locked (nodes s) x))) \<and>
    (\<forall>x. (x = sp \<or> x = succ) \<longrightarrow> x \<noteq> parent \<longrightarrow> x \<noteq> cur \<longrightarrow> \<not> locked (nodes s) x) \<and>
    root s1 = root s \<and> rwlock s1 = rwlock s \<and> events s1 = events s"
  using assms
proof (induction u arbitrary: s parent cur)
  case Leaf
  then show ?case by simp
next
  case (Node l a k v r)
  from Node.prems(1) obtain n where n: "cur = a" "nodes s a = Some n" "key n = k" "val n = v"
    "is_tree (nodes s) (left n) l" "is_tree (nodes s) (right n) r"
    "a \<notin> addrs l" "a \<notin> addrs r" "addrs l \<inter> addrs r = {}"
    by (auto split: option.splits)
  note run = Node.prems(2)[unfolded n(1)]
  note lp = Node.prems(3) and lc = Node.prems(4)[unfolded n(1)] and pn = Node.prems(5)
  show ?case
  proof (cases "left n")
    case None
    then have L: "l = Leaf" using n(5) by (simp add: is_tree_NoneD)
    from run None n(2) have "s1 = s" "sp = parent" "succ = a"
      by (subst (asm) find_min_loop.simps, simp)+
    then show ?thesis using L lp lc n(1) by auto
  next
    case (Some nx)
    then have nx: "nx \<in> addrs l" "l \<noteq> Leaf" using n(5) by (auto elim!: is_tree_SomeE)
    from run Some n(2) obtain sa sb where
      sa: "pthread_mutex_lock s nx = Some sa" and
      sb: "pthread_mutex_unlock sa parent = Some sb" and
      rec: "find_min_loop sb a nx = Some (s1, sp, succ)"
      by (subst (asm) find_min_loop.simps) (auto split: bind_splits)
    note la = lock_SomeD[OF sa] and ub = unlock_SomeD[OF sb]
    have cb: "core (nodes sb) = core (nodes s)" using la(1) ub(1) by simp
    have lb: "\<And>x. locked (nodes sb) x = (x \<noteq> parent \<and> (x = nx \<or> locked (nodes s) x))"
      using la(2) ub(2) by simp
    have np: "nx \<noteq> parent" "a \<noteq> parent" "nx \<noteq> a" using pn nx n(7) by auto
    have tb: "is_tree (nodes sb) (Some nx) l"
      using n(5) Some by (subst is_tree_cong_core[of _ "nodes sb" "nodes s"]) (simp_all add: cb)
    have IH: "map_option fst (min_node l) = Some succ \<and> sp = min_parent a l \<and>
      core (nodes s1) = core (nodes sb) \<and>
      (\<forall>x. locked (nodes s1) x = (x = sp \<or> x = succ \<or> (x \<noteq> a \<and> x \<noteq> nx \<and> locked (nodes sb) x))) \<and>
      (\<forall>x. (x = sp \<or> x = succ) \<longrightarrow> x \<noteq> a \<longrightarrow> x \<noteq> nx \<longrightarrow> \<not> locked (nodes sb) x) \<and>
      root s1 = root sb \<and> rwlock s1 = rwlock sb \<and> events s1 = events sb"
    proof -
      have p1: "locked (nodes sb) a" using lb lc np by simp
      have p2: "locked (nodes sb) nx" using lb np by simp
      show ?thesis using Node.IH(1)[OF tb rec p1 p2 n(7)] .
    qed
    have "\<forall>x. locked (nodes s1) x = (x = sp \<or> x = succ \<or> (x \<noteq> parent \<and> x \<noteq> a \<and> locked (nodes s) x))"
      using IH lb la(3) by auto
    moreover have "\<forall>x. (x = sp \<or> x = succ) \<longrightarrow> x \<noteq> parent \<longrightarrow> x \<noteq> a \<longrightarrow> \<not> locked (nodes s) x"
      using IH lb la(3) by auto
    moreover have "root s1 = root s \<and> rwlock s1 = rwlock s \<and> events s1 = events s"
      using IH la(4-6) ub(3-5) by simp
    ultimately show ?thesis using IH nx(2) cb n(1) by simp
  qed
qed

lemma find_min_loop_total:
  assumes "is_tree (nodes s) (Some cur) u"
    and "\<forall>x\<in>addrs u. x \<noteq> cur \<longrightarrow> \<not> locked (nodes s) x"
    and "parent \<in> dom (nodes s)"
  shows "\<exists>res. find_min_loop s parent cur = Some res"
  using assms
proof (induction u arbitrary: s parent cur)
  case Leaf
  then show ?case by simp
next
  case (Node l a k v r)
  from Node.prems(1) obtain n where n: "cur = a" "nodes s a = Some n" "key n = k" "val n = v"
    "is_tree (nodes s) (left n) l" "is_tree (nodes s) (right n) r"
    "a \<notin> addrs l" "a \<notin> addrs r" "addrs l \<inter> addrs r = {}"
    by (auto split: option.splits)
  show ?case
  proof (cases "left n")
    case None
    then show ?thesis unfolding n(1) using n(2) by (subst find_min_loop.simps) simp
  next
    case (Some nx)
    then have nx: "nx \<in> addrs l" "nx \<in> dom (nodes s)" using n(5) by (auto elim!: is_tree_SomeE)
    have "\<not> locked (nodes s) nx" using Node.prems(2) nx n(1,7) by auto
    then obtain sa where sa: "pthread_mutex_lock s nx = Some sa"
      using lock_total[OF nx(2)] by blast
    note la = lock_SomeD[OF sa]
    obtain sb where sb: "pthread_mutex_unlock sa parent = Some sb"
      using unlock_total[of parent sa] Node.prems(3) la(7) by auto
    note ub = unlock_SomeD[OF sb]
    have cb: "core (nodes sb) = core (nodes s)" using la(1) ub(1) by simp
    have tb: "is_tree (nodes sb) (Some nx) l"
      using n(5) Some by (subst is_tree_cong_core[of _ "nodes sb" "nodes s"]) (simp_all add: cb)
    have "\<forall>x\<in>addrs l. \<not> locked (nodes s) x" using Node.prems(2) n(1,7) by auto
    then have l2: "\<forall>x\<in>addrs l. x \<noteq> nx \<longrightarrow> \<not> locked (nodes sb) x"
      using la(2) ub(2) by simp
    have "a \<in> dom (nodes sb)" using n(2) la(7) ub(6) by auto
    from Node.IH(1)[OF tb l2 this] show ?thesis unfolding n(1) using Some n(2) sa sb
      by (subst find_min_loop.simps) simp
  qed
qed


lemma del_postI:
  assumes "is_tree (nodes s') (link s' parent d) (tree_del (strdup_ok e) (old \<noteq> None) k t)"
    and "res = del_rc (strdup_ok e) k t"
    and "out = del_out (strdup_ok e) k old t"
    and "\<forall>x. x \<notin> addrs t \<longrightarrow> Some x \<noteq> parent \<longrightarrow> core (nodes s') x = core (nodes s) x"
    and "\<forall>p. parent = Some p \<longrightarrow> root s' = root s"
    and "\<forall>p. parent = Some p \<longrightarrow>
        core (nodes s') p =
          map_option (\<lambda>n. if d then n\<lparr>left := link s' parent d\<rparr> else n\<lparr>right := link s' parent d\<rparr>)
            (core (nodes s) p)"
    and "\<forall>x\<in>addrs t - addrs (tree_del (strdup_ok e) (old \<noteq> None) k t). nodes s' x = None"
    and "res \<noteq> - 1 \<longrightarrow>
        (\<forall>x. locked (nodes s') x = (x \<noteq> cur \<and> Some x \<noteq> parent \<and> locked (nodes s) x))"
    and "rwlock s' = rwlock s"
    and "events s' = events s @ (case del_freed (strdup_ok e) k t of None \<Rightarrow> [] | Some a \<Rightarrow> [Free_node a])"
  shows "del_post e k old s parent d cur t res out s'"
  unfolding del_post_def using assms by blast

lemma link_core:
  "link s parent d =
     (case parent of
        None \<Rightarrow> root s
      | Some p \<Rightarrow> (case core (nodes s) p of None \<Rightarrow> None | Some pn \<Rightarrow> if d then left pn else right pn))"
  by (auto simp: link_def core_def split: option.splits)

lemma link_eqI:
  "root s' = root s \<Longrightarrow> (\<forall>p. parent = Some p \<longrightarrow> core (nodes s') p = core (nodes s) p) \<Longrightarrow>
   link s' parent d = link s parent d"
  by (cases parent) (simp_all add: link_core)

lemma self_link:
  "core (nodes s') p = core (nodes s) p \<Longrightarrow>
   core (nodes s) p =
     map_option (\<lambda>n. if d then n\<lparr>left := link s' (Some p) d\<rparr> else n\<lparr>right := link s' (Some p) d\<rparr>)
       (core (nodes s) p)"
  by (cases "core (nodes s) p") (simp_all add: link_core)

lemma store_SomeD2:
  assumes "store s a f = Some s1"
    and "\<And>n b. f (mtx_update (\<lambda>_. b) n) = mtx_update (\<lambda>_. b) (f n)"
  shows "core (nodes s1) = (core (nodes s))(a := map_option f (core (nodes s) a))"
    "locked (nodes s1) = locked (nodes s)"
    "root s1 = root s" "rwlock s1 = rwlock s" "events s1 = events s"
    "a \<in> dom (nodes s)"
proof -
  from assms(1) obtain n where n: "nodes s a = Some n" "s1 = s\<lparr>nodes := (nodes s)(a \<mapsto> f n)\<rparr>"
    by (rule store_SomeD)
  have m: "mtx (f n) = mtx n"
    using assms(2)[where n=n and b="mtx n"] by (metis bt_node.select_convs(5) bt_node.surjective bt_node.update_convs(5))
  show "core (nodes s1) = (core (nodes s))(a := map_option f (core (nodes s) a))"
    using n assms(2) by (auto simp: core_def fun_eq_iff)
  show "locked (nodes s1) = locked (nodes s)"
    using n m by (auto simp: locked_def fun_eq_iff)
  show "root s1 = root s" "rwlock s1 = rwlock s" "events s1 = events s" "a \<in> dom (nodes s)"
    using n by auto
qed

lemma node_free_SomeD:
  assumes "node_free s (Some a) False = Some s1"
  shows "core (nodes s1) = (core (nodes s))(a := None)"
    "\<And>x. locked (nodes s1) x = (x \<noteq> a \<and> locked (nodes s) x)"
    "root s1 = root s" "rwlock s1 = rwlock s" "events s1 = events s @ [Free_node a]"
    "nodes s1 a = None" "a \<in> dom (nodes s)"
  using assms
  by (auto simp: node_free_def core_def locked_def fun_eq_iff split: option.splits if_splits)

lemma delete_case1_post:
  assumes t: "is_tree (nodes s) (Some cur) (Node l cur k v r)"
    and leaf: "l = Leaf \<or> r = Leaf"
    and lk: "link_ok s parent d cur (Node l cur k v r)"
    and run: "delete_case1 s parent cur = Some s'"
  shows "del_post e k old s parent d cur (Node l cur k v r) 0
           (if old \<noteq> None then Some v else None) s'"
proof -
  from t obtain n where n: "nodes s cur = Some n" "key n = k" "val n = v"
    "is_tree (nodes s) (left n) l" "is_tree (nodes s) (right n) r"
    "cur \<notin> addrs l" "cur \<notin> addrs r" "addrs l \<inter> addrs r = {}"
    by (auto split: option.splits)
  define child where "child = (if left n \<noteq> None then left n else right n)"
  define t' where "t' = (if l = Leaf then r else l)"
  have ch: "is_tree (nodes s) child t'"
    using n(4,5) leaf by (cases "left n") (auto simp: child_def t'_def dest: is_tree_NoneD)
  have t'_sub: "addrs t' \<subseteq> addrs l \<union> addrs r" "cur \<notin> addrs t'"
    using n(6,7) by (auto simp: t'_def)
  have td: "tree_del (strdup_ok e) (old \<noteq> None) k (Node l cur k v r) = t'"
    using leaf by (auto simp: t'_def)
  have "do {
     s1 \<leftarrow> (case parent of
             None \<Rightarrow> Some (s\<lparr>root := child\<rparr>)
           | Some p \<Rightarrow> do {
               pn \<leftarrow> nodes s p;
               if left pn = Some cur then store s p (\<lambda>n. n\<lparr>left := child\<rparr>)
               else store s p (\<lambda>n. n\<lparr>right := child\<rparr>)
             });
     s2 \<leftarrow> pthread_mutex_unlock s1 cur;
     s3 \<leftarrow> unlock_if s2 parent;
     node_free s3 (Some cur) False
   } = Some s'"
    using run unfolding delete_case1_def Let_def n(1) child_def by simp
  then obtain s1 s2 s3 where
    s1: "(case parent of
             None \<Rightarrow> Some (s\<lparr>root := child\<rparr>)
           | Some p \<Rightarrow> do {
               pn \<leftarrow> nodes s p;
               if left pn = Some cur then store s p (\<lambda>n. n\<lparr>left := child\<rparr>)
               else store s p (\<lambda>n. n\<lparr>right := child\<rparr>)
             }) = Some s1" and
    s2: "pthread_mutex_unlock s1 cur = Some s2" and
    s3: "unlock_if s2 parent = Some s3" and
    s4: "node_free s3 (Some cur) False = Some s'"
    by (auto split: bind_splits)
  note u2 = unlock_SomeD[OF s2] and u3 = unlock_if_SomeD[OF s3] and f4 = node_free_SomeD[OF s4]
  have c': "core (nodes s') = (core (nodes s1))(cur := None)"
    using u2(1) u3(1) f4(1) by simp
  have l': "\<And>x. locked (nodes s') x = (x \<noteq> cur \<and> Some x \<noteq> parent \<and> locked (nodes s1) x)"
    using u2(2) u3(2) f4(2) by auto
  have m': "root s' = root s1" "rwlock s' = rwlock s1" "events s' = events s1 @ [Free_node cur]"
    using u2(3-5) u3(3-5) f4(3-5) by simp_all
  have s1_facts: "link s1 parent d = child \<and>
      (\<forall>x. Some x \<noteq> parent \<longrightarrow> core (nodes s1) x = core (nodes s) x) \<and>
      (\<forall>p. parent = Some p \<longrightarrow> root s1 = root s \<and>
         core (nodes s1) p = map_option (\<lambda>n. if d then n\<lparr>left := child\<rparr> else n\<lparr>right := child\<rparr>)
            (core (nodes s) p)) \<and>
      locked (nodes s1) = locked (nodes s) \<and> rwlock s1 = rwlock s \<and> events s1 = events s"
  proof (cases parent)
    case None
    then show ?thesis using s1 by (auto simp: link_def)
  next
    case (Some p)
    with s1 obtain pn where pn: "nodes s p = Some pn"
      and st: "store s p (\<lambda>n. if d then n\<lparr>left := child\<rparr> else n\<lparr>right := child\<rparr>) = Some s1"
      using lk by (cases d) (auto simp: link_ok_def split: bind_splits if_splits)
    have "core (nodes s1) = (core (nodes s))(p := map_option (\<lambda>n. if d then n\<lparr>left := child\<rparr> else n\<lparr>right := child\<rparr>) (core (nodes s) p))"
      "locked (nodes s1) = locked (nodes s)"
      "root s1 = root s" "rwlock s1 = rwlock s" "events s1 = events s"
      using store_SomeD2[OF st] by simp_all
    then show ?thesis using Some pn by (auto simp: link_core core_def)
  qed
  have pc: "\<forall>p. parent = Some p \<longrightarrow> p \<noteq> cur \<and> p \<notin> addrs t'"
    using lk t'_sub by (auto simp: link_ok_def)
  have link': "link s' parent d = child"
    using s1_facts pc c' m'(1) by (auto simp: link_core split: option.splits)
  have "is_tree (nodes s') child t'"
  proof (subst is_tree_cong_core[of _ "nodes s'" "nodes s"])
    show "\<forall>x\<in>addrs t'. core (nodes s') x = core (nodes s) x"
      using c' s1_facts pc t'_sub(2) by auto
    show "is_tree (nodes s) child t'" by (rule ch)
  qed
  moreover have "\<forall>x. x \<notin> addrs (Node l cur k v r) \<longrightarrow> Some x \<noteq> parent \<longrightarrow>
      core (nodes s') x = core (nodes s) x"
    using c' s1_facts by auto
  moreover have "\<forall>p. parent = Some p \<longrightarrow> root s' = root s \<and>
        core (nodes s') p =
          map_option (\<lambda>n. if d then n\<lparr>left := child\<rparr> else n\<lparr>right := child\<rparr>) (core (nodes s) p)"
    using c' s1_facts pc m'(1) by auto
  moreover have "\<forall>x\<in>addrs (Node l cur k v r) - addrs t'. nodes s' x = None"
    using f4(6) leaf by (auto simp: t'_def)
  moreover have "\<forall>x. locked (nodes s') x = (x \<noteq> cur \<and> Some x \<noteq> parent \<and> locked (nodes s) x)"
    using l' s1_facts by simp
  moreover have "rwlock s' = rwlock s" "events s' = events s @ [Free_node cur]"
    using m' s1_facts by simp_all
  moreover have "del_rc (strdup_ok e) k (Node l cur k v r) = 0"
    "del_out (strdup_ok e) k old (Node l cur k v r) = (if old \<noteq> None then Some v else None)"
    "del_freed (strdup_ok e) k (Node l cur k v r) = Some cur"
    using leaf by auto
  ultimately show ?thesis
    unfolding del_post_def td link' by simp
qed


lemma min_node_heap:
  "is_tree h c u \<Longrightarrow> min_node u = Some (sa, sk, sv) \<Longrightarrow>
   \<exists>sn. h sa = Some sn \<and> key sn = sk \<and> val sn = sv"
proof (induction u arbitrary: c)
  case Leaf
  then show ?case by simp
next
  case (Node l a k v r)
  from Node.prems(1) obtain n where n: "h a = Some n" "key n = k" "val n = v" "is_tree h (left n) l"
    by (auto split: option.splits)
  show ?case
  proof (cases "l = Leaf")
    case True
    then show ?thesis using Node.prems(2) n by simp
  next
    case False
    then show ?thesis using Node.IH(1)[OF n(4)] Node.prems(2) by simp
  qed
qed

lemma min_parent_neq:
  "is_tree h c u \<Longrightarrow> min_node u = Some (sa, sk, sv) \<Longrightarrow> p \<notin> addrs u \<Longrightarrow> min_parent p u \<noteq> sa"
proof (induction u arbitrary: c p)
  case Leaf
  then show ?case by simp
next
  case (Node l a k v r)
  from Node.prems(1) obtain n where n: "h a = Some n" "is_tree h (left n) l" "a \<notin> addrs l"
    by (auto split: option.splits)
  show ?case
  proof (cases "l = Leaf")
    case True
    then show ?thesis using Node.prems(2,3) by auto
  next
    case False
    then show ?thesis using Node.IH(1)[OF n(2) _ n(3)] Node.prems(2) by simp
  qed
qed

lemma delete_case2_post:
  assumes t: "is_tree (nodes s) (Some cur) (Node l cur k v r)"
    and nl: "l \<noteq> Leaf" "r \<noteq> Leaf"
    and lk: "link_ok s parent d cur (Node l cur k v r)"
    and lc: "locked (nodes s) cur"
    and run: "delete_case2 e s parent cur (if old \<noteq> None then Some v else None) = Some (res, out, s')"
  shows "del_post e k old s parent d cur (Node l cur k v r) res out s'"
proof -
  from t obtain n where n: "nodes s cur = Some n" "key n = k" "val n = v"
    "is_tree (nodes s) (left n) l" "is_tree (nodes s) (right n) r"
    "cur \<notin> addrs l" "cur \<notin> addrs r" "addrs l \<inter> addrs r = {}"
    by (auto split: option.splits)
  from n(5) nl(2) obtain cr where cr: "right n = Some cr" by (cases r; cases "right n") auto
  from min_node_Some[OF nl(2)] obtain sa sk sv where m: "min_node r = Some (sa, sk, sv)" by blast
  have sa_r: "sa \<in> addrs r" using min_node_addrs[OF m] .
  define sp where "sp = min_parent cur r"
  have sp_r: "sp \<in> insert cur (addrs r)" unfolding sp_def by (rule min_parent_addrs)
  have sp_sa: "sp \<noteq> sa" unfolding sp_def using min_parent_neq[OF n(5) m n(7)] .
  have sa_cur: "sa \<noteq> cur" using sa_r n(7) by auto
  have pc: "\<forall>p. parent = Some p \<longrightarrow> p \<noteq> cur \<and> p \<notin> addrs l \<and> p \<notin> addrs r"
    using lk by (auto simp: link_ok_def)
  let ?ok = "strdup_ok e"
  let ?t = "Node l cur k v r"
  \<comment> \<open>find_min_locked\<close>
  from run n(1) cr obtain sA sB sp' succ where
    sA: "pthread_mutex_lock s cr = Some sA" and
    fm: "find_min_loop sA cur cr = Some (sB, sp', succ)" and
    fml: "find_min_locked s cur = Some (sB, sp', succ)"
    by (auto simp: delete_case2_def find_min_locked_def split: bind_splits)
  note la = lock_SomeD[OF sA]
  have tA: "is_tree (nodes sA) (Some cr) r"
    using n(5) cr by (subst is_tree_cong_core[of _ "nodes sA" "nodes s"]) (simp_all add: la(1))
  have crc: "cr \<noteq> cur" using n(5,7) cr by (auto elim!: is_tree_SomeE)
  have "locked (nodes sA) cur" "locked (nodes sA) cr" using la(2) lc by simp_all
  from find_min_loop_post[OF tA fm this n(7)] m
  have fmp: "succ = sa" "sp' = sp" "core (nodes sB) = core (nodes s)"
    "\<forall>x. locked (nodes sB) x = (x = sp \<or> x = sa \<or> (x \<noteq> cur \<and> x \<noteq> cr \<and> locked (nodes s) x))"
    "\<forall>x. (x = sp \<or> x = sa) \<longrightarrow> x \<noteq> cur \<longrightarrow> \<not> locked (nodes s) x"
    "root sB = root s" "rwlock sB = rwlock s" "events sB = events s"
    using la by (auto simp: sp_def)
  from min_node_heap[OF n(5) m] obtain sn0 where sn0: "nodes s sa = Some sn0" "key sn0 = sk" "val sn0 = sv"
    by blast
  have "core (nodes sB) sa = core (nodes s) sa" using fmp(3) by simp
  from core_eq_fields[OF this sn0(1)] obtain sn where sn: "nodes sB sa = Some sn" "key sn = sk"
    "val sn = sv" "left sn = left sn0" "right sn = right sn0"
    using sn0 by auto
  have lock_final: "\<forall>x. locked (nodes s') x = (x \<noteq> cur \<and> Some x \<noteq> parent \<and> locked (nodes s) x)"
    if "\<forall>x. locked (nodes s') x = (x \<noteq> sa \<and> x \<noteq> sp \<and> x \<noteq> cur \<and> Some x \<noteq> parent \<and> locked (nodes sB) x)"
    using that fmp(4,5) la(3) by auto
  show ?thesis
  proof (cases ?ok)
    case False
    from run fml fmp(1,2) sn(1) False obtain s2 s3 s4 where
      s2: "pthread_mutex_unlock sB sa = Some s2" and
      s3: "pthread_mutex_unlock s2 sp = Some s3" and
      s4: "pthread_mutex_unlock s3 cur = Some s4" and
      s5: "unlock_if s4 parent = Some s'" and
      res: "res = ENOMEM" "out = (if old \<noteq> None then Some v else None)"
      by (auto simp: delete_case2_def split: bind_splits)
    note u2 = unlock_SomeD[OF s2] and u3 = unlock_SomeD[OF s3] and u4 = unlock_SomeD[OF s4]
      and u5 = unlock_if_SomeD[OF s5]
    have c': "core (nodes s') = core (nodes s)" using u2(1) u3(1) u4(1) u5(1) fmp(3) by simp
    have td: "tree_del ?ok (old \<noteq> None) k ?t = ?t" using False nl m by simp
    have "is_tree (nodes s') (link s' parent d) ?t"
    proof -
      have "link s' parent d = link s parent d"
        using c' u2(3) u3(3) u4(3) u5(3) fmp(6) by (intro link_eqI) simp_all
      then have "link s' parent d = Some cur" using lk by (simp add: link_ok_def)
      then show ?thesis using t by (subst is_tree_cong_core[of _ "nodes s'" "nodes s"]) (simp_all add: c')
    qed
    moreover have "\<forall>x. locked (nodes s') x = (x \<noteq> cur \<and> Some x \<noteq> parent \<and> locked (nodes s) x)"
      by (rule lock_final) (use u2(2) u3(2) u4(2) u5(2) in auto)
    moreover have "root s' = root s" "rwlock s' = rwlock s" "events s' = events s"
      using u2(3-5) u3(3-5) u4(3-5) u5(3-5) fmp(6-8) by simp_all
    moreover have "del_rc ?ok k ?t = ENOMEM" "del_out ?ok k old ?t = (if old \<noteq> None then Some v else None)"
      "del_freed ?ok k ?t = None"
      using False nl by auto
    moreover have "\<forall>p. parent = Some p \<longrightarrow> core (nodes s') p =
          map_option (\<lambda>n. if d then n\<lparr>left := link s' parent d\<rparr> else n\<lparr>right := link s' parent d\<rparr>)
            (core (nodes s) p)"
    proof (intro allI impI)
      fix p assume p: "parent = Some p"
      have e: "core (nodes s') p = core (nodes s) p" using c' by simp
      show "core (nodes s') p =
          map_option (\<lambda>n. if d then n\<lparr>left := link s' parent d\<rparr> else n\<lparr>right := link s' parent d\<rparr>)
            (core (nodes s) p)"
        unfolding p e by (rule self_link[OF e])
    qed
    ultimately show ?thesis
      unfolding del_post_def td using res c' by simp
  next
    case True
    define vv where "vv = (if old \<noteq> None then v else sv)"
    define rr where "rr = (if sp = cur then right sn0 else right n)"
    from run fml fmp(1,2) sn(1) True have run2: "do {
       s2 \<leftarrow> store sB cur (\<lambda>n. n\<lparr>key := key sn\<rparr>);
       sn2 \<leftarrow> nodes s2 sa;
       (old_value2, s3) \<leftarrow>
          (if old \<noteq> None then Some (Some (val sn2), s2)
           else do { s' \<leftarrow> store s2 cur (\<lambda>n. n\<lparr>val := val sn2\<rparr>); Some (None, s') });
       sn3 \<leftarrow> nodes s3 sa;
       s4 \<leftarrow> (if sp = cur then store s3 cur (\<lambda>n. n\<lparr>right := right sn3\<rparr>)
              else store s3 sp (\<lambda>n. n\<lparr>left := right sn3\<rparr>));
       s5 \<leftarrow> pthread_mutex_unlock s4 sa;
       s6 \<leftarrow> pthread_mutex_unlock s5 sp;
       s7 \<leftarrow> pthread_mutex_unlock s6 cur;
       s8 \<leftarrow> unlock_if s7 parent;
       s9 \<leftarrow> node_free s8 (Some sa) False;
       Some (0, old_value2, s9)
     } = Some (res, out, s')"
      by (cases old) (simp_all add: delete_case2_def)
    then obtain s2 sn2 where s2: "store sB cur (\<lambda>n. n\<lparr>key := sk\<rparr>) = Some s2"
      and sn2: "nodes s2 sa = Some sn2"
      and run3: "do {
       (old_value2, s3) \<leftarrow>
          (if old \<noteq> None then Some (Some (val sn2), s2)
           else do { s' \<leftarrow> store s2 cur (\<lambda>n. n\<lparr>val := val sn2\<rparr>); Some (None, s') });
       sn3 \<leftarrow> nodes s3 sa;
       s4 \<leftarrow> (if sp = cur then store s3 cur (\<lambda>n. n\<lparr>right := right sn3\<rparr>)
              else store s3 sp (\<lambda>n. n\<lparr>left := right sn3\<rparr>));
       s5 \<leftarrow> pthread_mutex_unlock s4 sa;
       s6 \<leftarrow> pthread_mutex_unlock s5 sp;
       s7 \<leftarrow> pthread_mutex_unlock s6 cur;
       s8 \<leftarrow> unlock_if s7 parent;
       s9 \<leftarrow> node_free s8 (Some sa) False;
       Some (0, old_value2, s9)
     } = Some (res, out, s')"
      using sn(2) by (auto split: bind_splits)
    note st2 = store_SomeD2[OF s2]
    have c2: "core (nodes s2) = (core (nodes s))(cur := map_option (\<lambda>n. n\<lparr>key := sk\<rparr>) (core (nodes s) cur))"
      using st2(1) fmp(3) by simp
    have "core (nodes s2) sa = core (nodes s) sa" using c2 sa_cur by simp
    from core_eq_fields[OF this sn0(1)] sn2 have sn2f: "val sn2 = sv" "right sn2 = right sn0"
      using sn0 by auto
    from run3 obtain s3 sn3 where
      s3: "(if old \<noteq> None then Some s2 else store s2 cur (\<lambda>n. n\<lparr>val := sv\<rparr>)) = Some s3"
      and out: "out = (if old \<noteq> None then Some sv else None)"
      and sn3: "nodes s3 sa = Some sn3"
      and run4: "do {
       s4 \<leftarrow> (if sp = cur then store s3 cur (\<lambda>n. n\<lparr>right := right sn3\<rparr>)
              else store s3 sp (\<lambda>n. n\<lparr>left := right sn3\<rparr>));
       s5 \<leftarrow> pthread_mutex_unlock s4 sa;
       s6 \<leftarrow> pthread_mutex_unlock s5 sp;
       s7 \<leftarrow> pthread_mutex_unlock s6 cur;
       s8 \<leftarrow> unlock_if s7 parent;
       s9 \<leftarrow> node_free s8 (Some sa) False;
       Some (0::int, s9)
     } = Some (res, s')"
      using sn2f by (auto split: bind_splits if_splits)
    have c3: "core (nodes s3) = (core (nodes s2))(cur := map_option (\<lambda>n. n\<lparr>val := vv\<rparr>) (core (nodes s2) cur))"
      and m3: "locked (nodes s3) = locked (nodes s2)" "root s3 = root s2" "rwlock s3 = rwlock s2"
         "events s3 = events s2"
    proof -
      have "core (nodes s2) cur = Some (n\<lparr>key := sk, mtx := False\<rparr>)"
        using c2 n(1) by (simp add: core_def)
      then have id: "(core (nodes s2))(cur := map_option (\<lambda>n. n\<lparr>val := v\<rparr>) (core (nodes s2) cur)) = core (nodes s2)"
        using n(3) by (auto simp: fun_eq_iff)
      show "core (nodes s3) = (core (nodes s2))(cur := map_option (\<lambda>n. n\<lparr>val := vv\<rparr>) (core (nodes s2) cur))"
      proof (cases "old = None")
        case True
        then show ?thesis using s3 store_SomeD2(1)[of s2 cur "\<lambda>n. n\<lparr>val := sv\<rparr>" s3] by (simp add: vv_def)
      next
        case False
        then show ?thesis using s3 id by (simp add: vv_def)
      qed
      have "locked (nodes s3) = locked (nodes s2) \<and> root s3 = root s2 \<and> rwlock s3 = rwlock s2 \<and>
         events s3 = events s2"
      proof (cases "old = None")
        case True
        then have "store s2 cur (\<lambda>n. n\<lparr>val := sv\<rparr>) = Some s3" using s3 by simp
        from store_SomeD2(2-5)[OF this] show ?thesis by simp
      next
        case False
        then show ?thesis using s3 by simp
      qed
      then show "locked (nodes s3) = locked (nodes s2)" "root s3 = root s2" "rwlock s3 = rwlock s2"
         "events s3 = events s2"
        by simp_all
    qed
    have "core (nodes s3) sa = core (nodes s) sa" using c3 c2 sa_cur by simp
    from core_eq_fields[OF this sn0(1)] sn3 have sn3f: "right sn3 = right sn0"
      by auto
    define X where "X = (if sp = cur then cur else sp)"
    define g where "g = (\<lambda>n :: 'a bt_node. if sp = cur then n\<lparr>right := right sn0\<rparr> else n\<lparr>left := right sn0\<rparr>)"
    from run4 obtain s4 s5 s6 s7 s8 where
      s4: "store s3 X g = Some s4" and
      s5: "pthread_mutex_unlock s4 sa = Some s5" and
      s6: "pthread_mutex_unlock s5 sp = Some s6" and
      s7: "pthread_mutex_unlock s6 cur = Some s7" and
      s8: "unlock_if s7 parent = Some s8" and
      s9: "node_free s8 (Some sa) False = Some s'" and res: "res = 0"
      using sn3f by (auto simp: X_def g_def split: bind_splits if_splits)
    have gm: "\<And>n b. g (mtx_update (\<lambda>_. b) n) = mtx_update (\<lambda>_. b) (g n)"
      by (simp add: g_def)
    note st4 = store_SomeD2[OF s4 gm]
    note u5 = unlock_SomeD[OF s5] and u6 = unlock_SomeD[OF s6] and u7 = unlock_SomeD[OF s7]
      and u8 = unlock_if_SomeD[OF s8] and f9 = node_free_SomeD[OF s9]
    have c4: "core (nodes s4) = (core (nodes s3))(X := map_option g (core (nodes s3) X))"
      using st4(1) .
    have c': "core (nodes s') = (core (nodes s4))(sa := None)"
      using u5(1) u6(1) u7(1) u8(1) f9(1) by simp
    have misc: "root s' = root s" "rwlock s' = rwlock s" "events s' = events s @ [Free_node sa]"
      using u5(3-5) u6(3-5) u7(3-5) u8(3-5) f9(3-5) st4(3-5) m3(2-4) st2(3-5) fmp(6-8) by simp_all
    have locks: "\<forall>x. locked (nodes s') x = (x \<noteq> cur \<and> Some x \<noteq> parent \<and> locked (nodes s) x)"
      by (rule lock_final) (use u5(2) u6(2) u7(2) u8(2) f9(2) st4(2) m3(1) st2(2) in auto)
    \<comment> \<open>the heap after the call, at each node\<close>
    have core_cur: "core (nodes s') cur = Some (n\<lparr>key := sk, val := vv, right := rr, mtx := False\<rparr>)"
      using c' c4 c3 c2 n(1) sa_cur
      by (auto simp: X_def g_def rr_def core_def)
    have core_sp: "sp \<noteq> cur \<longrightarrow> (\<exists>spn. nodes s sp = Some spn \<and>
        core (nodes s') sp = Some (spn\<lparr>left := right sn0, mtx := False\<rparr>))"
    proof
      assume ne: "sp \<noteq> cur"
      then have "sp \<in> addrs r" using sp_r by simp
      then obtain spn where "nodes s sp = Some spn" using is_tree_addrs_dom[OF n(5)] by auto
      then show "\<exists>spn. nodes s sp = Some spn \<and>
        core (nodes s') sp = Some (spn\<lparr>left := right sn0, mtx := False\<rparr>)"
        using c' c4 c3 c2 ne sp_sa by (auto simp: X_def g_def core_def)
    qed
    have core_other: "\<forall>x. x \<noteq> cur \<longrightarrow> x \<noteq> sp \<longrightarrow> x \<noteq> sa \<longrightarrow> core (nodes s') x = core (nodes s) x"
      using c' c4 c3 c2 by (auto simp: X_def)
    have core_sa: "nodes s' sa = None" using f9(6) .
    \<comment> \<open>the tree\<close>
    have td: "tree_del ?ok (old \<noteq> None) k ?t = Node l cur sk vv (del_min r)"
      using True nl m by (simp add: vv_def)
    have right': "is_tree (nodes s') rr (del_min r)"
    proof -
      have "is_tree (nodes s') (if min_parent cur r = cur then right sn0 else Some cr) (del_min r)"
      proof (rule splice_min[OF n(5)[unfolded cr] m sn0(1) n(7)])
        show "\<forall>x\<in>addrs r. x \<noteq> sa \<longrightarrow> x \<noteq> min_parent cur r \<longrightarrow> core (nodes s') x = core (nodes s) x"
          using core_other n(7) by (auto simp: sp_def)
        show "min_parent cur r \<noteq> cur \<longrightarrow>
           (\<exists>spn. nodes s (min_parent cur r) = Some spn \<and>
                  core (nodes s') (min_parent cur r) = Some (spn\<lparr>left := right sn0, mtx := False\<rparr>))"
          using core_sp by (simp add: sp_def)
      qed
      then show ?thesis by (auto simp: rr_def sp_def cr split: if_splits)
    qed
    have left': "is_tree (nodes s') (left n) l"
    proof (subst is_tree_cong_core[of _ "nodes s'" "nodes s"])
      show "\<forall>x\<in>addrs l. core (nodes s') x = core (nodes s) x"
        using core_other n(6,8) sa_r sp_r by auto
      show "is_tree (nodes s) (left n) l" by (rule n(4))
    qed
    from core_cur obtain n' where n': "nodes s' cur = Some n'"
      "n'\<lparr>mtx := False\<rparr> = n\<lparr>key := sk, val := vv, right := rr, mtx := False\<rparr>"
      by (auto simp: core_def)
    from n'(2) have "key (n'\<lparr>mtx := False\<rparr>) = sk" "val (n'\<lparr>mtx := False\<rparr>) = vv"
        "left (n'\<lparr>mtx := False\<rparr>) = left n" "right (n'\<lparr>mtx := False\<rparr>) = rr"
      by simp_all
    then have n'f: "key n' = sk" "val n' = vv" "left n' = left n" "right n' = rr" by simp_all
    have dm: "addrs (del_min r) = addrs r - {sa}" using addrs_del_min_eq[OF n(5) m] .
    have tree': "is_tree (nodes s') (Some cur) (Node l cur sk vv (del_min r))"
      using n'(1) n'f left' right' n(6,7,8) dm by auto
    have link': "link s' parent d = Some cur"
    proof -
      have "link s' parent d = link s parent d"
        using misc(1) core_other pc sa_r sp_r by (intro link_eqI) auto
      then show ?thesis using lk by (simp add: link_ok_def)
    qed
    have par: "\<forall>p. parent = Some p \<longrightarrow> core (nodes s') p =
          map_option (\<lambda>n. if d then n\<lparr>left := link s' parent d\<rparr> else n\<lparr>right := link s' parent d\<rparr>)
            (core (nodes s) p)"
    proof (intro allI impI)
      fix p assume p: "parent = Some p"
      then have e: "core (nodes s') p = core (nodes s) p" using core_other pc sa_r sp_r by auto
      show "core (nodes s') p =
          map_option (\<lambda>n. if d then n\<lparr>left := link s' parent d\<rparr> else n\<lparr>right := link s' parent d\<rparr>)
            (core (nodes s) p)"
        unfolding p e by (rule self_link[OF e])
    qed
    have frame: "\<forall>x. x \<notin> addrs ?t \<longrightarrow> Some x \<noteq> parent \<longrightarrow> core (nodes s') x = core (nodes s) x"
      using core_other sa_r sp_r by auto
    have "addrs ?t - addrs (Node l cur sk vv (del_min r)) \<subseteq> {sa}"
      unfolding addrs.simps dm by blast
    then have freed: "\<forall>x\<in>addrs ?t - addrs (Node l cur sk vv (del_min r)). nodes s' x = None"
      using core_sa by blast
    have rcs: "del_rc ?ok k ?t = 0" "del_out ?ok k old ?t = (if old \<noteq> None then Some sv else None)"
      "del_freed ?ok k ?t = Some sa"
      using True nl m by auto
    show ?thesis
    proof (rule del_postI)
      show "is_tree (nodes s') (link s' parent d) (tree_del ?ok (old \<noteq> None) k ?t)"
        unfolding td link' by (rule tree')
      show "res = del_rc ?ok k ?t" unfolding rcs by (rule res)
      show "out = del_out ?ok k old ?t" unfolding rcs by (rule out)
      show "\<forall>x. x \<notin> addrs ?t \<longrightarrow> Some x \<noteq> parent \<longrightarrow> core (nodes s') x = core (nodes s) x"
        by (rule frame)
      show "\<forall>p. parent = Some p \<longrightarrow> root s' = root s" using misc(1) by simp
      show "\<forall>p. parent = Some p \<longrightarrow>
        core (nodes s') p =
          map_option (\<lambda>n. if d then n\<lparr>left := link s' parent d\<rparr> else n\<lparr>right := link s' parent d\<rparr>)
            (core (nodes s) p)"
        by (rule par)
      show "\<forall>x\<in>addrs ?t - addrs (tree_del ?ok (old \<noteq> None) k ?t). nodes s' x = None"
        unfolding td by (rule freed)
      show "res \<noteq> - 1 \<longrightarrow>
        (\<forall>x. locked (nodes s') x = (x \<noteq> cur \<and> Some x \<noteq> parent \<and> locked (nodes s) x))"
        using locks by simp
      show "rwlock s' = rwlock s" by (rule misc(2))
      show "events s' = events s @ (case del_freed ?ok k ?t of None \<Rightarrow> [] | Some a \<Rightarrow> [Free_node a])"
        unfolding rcs using misc(3) by simp
    qed
  qed
qed

subsection \<open>bt\_delete: the search and the splice together\<close>


lemma addrs_tree_del: "addrs (tree_del ok out k t) \<subseteq> addrs t"
proof (induction t)
  case Leaf
  show ?case by simp
next
  case (Node l a k' v' r)
  show ?case using Node addrs_del_min[of r]
    by (auto split: option.splits)
qed

lemma delete_node_post:
  assumes t: "is_tree (nodes s) (Some cur) (Node l cur k v r)"
    and lk: "link_ok s parent d cur (Node l cur k v r)"
    and lc: "locked (nodes s) cur"
    and run: "delete_node e s parent cur old = Some (res, out, s')"
  shows "del_post e k old s parent d cur (Node l cur k v r) res out s'"
proof -
  from t obtain n where n: "nodes s cur = Some n" "key n = k" "val n = v"
    "is_tree (nodes s) (left n) l" "is_tree (nodes s) (right n) r"
    by (auto split: option.splits)
  have lf: "left n = None \<longleftrightarrow> l = Leaf" "right n = None \<longleftrightarrow> r = Leaf"
  proof -
    show "left n = None \<longleftrightarrow> l = Leaf" using n(4) by (cases l; cases "left n"; simp)
    show "right n = None \<longleftrightarrow> r = Leaf" using n(5) by (cases r; cases "right n"; simp)
  qed
  show ?thesis
  proof (cases "l = Leaf \<or> r = Leaf")
    case True
    with run n(1,3) lf obtain s1 where "delete_case1 s parent cur = Some s1"
      and r: "res = 0" "out = (if old \<noteq> None then Some v else None)" "s' = s1"
      by (auto simp: delete_node_def Let_def split: bind_splits)
    then show ?thesis using delete_case1_post[OF t True lk, of s' e old] by simp
  next
    case False
    with run n(1,3) lf
    have "delete_case2 e s parent cur (if old \<noteq> None then Some v else None) = Some (res, out, s')"
      by (auto simp: delete_node_def Let_def split: bind_splits)
    then show ?thesis using delete_case2_post[OF t _ _ lk lc] False by simp
  qed
qed

lemma delete_from_unfold:
  "delete_from e k old s parent cur = do {
     n \<leftarrow> nodes s cur;
     if k \<noteq> key n then
       (case (if k < key n then left n else right n) of
          None \<Rightarrow> do {
            s1 \<leftarrow> pthread_mutex_unlock s cur;
            Some (- 1, old, s1)
          }
        | Some next \<Rightarrow> do {
            s1 \<leftarrow> pthread_mutex_lock s next;
            s2 \<leftarrow> unlock_if s1 parent;
            delete_from e k old s2 (Some cur) next
          })
     else delete_node e s parent cur old
   }"
  unfolding delete_from_def
  by (subst delete_search.simps) (simp split: option.split prod.split bind_split)


lemma delete_from_post:
  assumes "is_tree (nodes s) (Some cur) t"
    and "link_ok s parent d cur t"
    and "locked (nodes s) cur"
    and "delete_from e k old s parent cur = Some (res, out, s')"
  shows "del_post e k old s parent d cur t res out s'"
  using assms
proof (induction t arbitrary: s parent d cur)
  case Leaf
  then show ?case by simp
next
  case (Node l a k' v' r)
  from Node.prems(1) obtain n where n: "cur = a" "nodes s a = Some n" "key n = k'" "val n = v'"
    "is_tree (nodes s) (left n) l" "is_tree (nodes s) (right n) r"
    "a \<notin> addrs l" "a \<notin> addrs r" "addrs l \<inter> addrs r = {}"
    by (auto split: option.splits)
  note lk = Node.prems(2)[unfolded n(1)]
  note lc = Node.prems(3)[unfolded n(1)]
  note run = Node.prems(4)[unfolded n(1)]
  let ?ok = "strdup_ok e"
  let ?o = "old \<noteq> None"
  let ?t = "Node l a k' v' r"
  show ?case
  proof (cases "k = k'")
    case True
    with run n(2,3) have "delete_node e s parent a old = Some (res, out, s')"
      by (subst (asm) delete_from_unfold) simp
    from delete_node_post[OF Node.prems(1)[unfolded n(1) True[symmetric]] _ lc this] lk True
    show ?thesis unfolding n(1) by simp
  next
    case False
    define d' where "d' = (k < k')"
    define c where "c = (if d' then left n else right n)"
    define sub where "sub = (if d' then l else r)"
    define other where "other = (if d' then r else l)"
    define co where "co = (if d' then right n else left n)"
    have sub: "is_tree (nodes s) c sub" "a \<notin> addrs sub" "addrs sub \<inter> addrs other = {}"
      "a \<notin> addrs other" "is_tree (nodes s) co other" "addrs ?t = insert a (addrs sub \<union> addrs other)"
      using n by (auto simp: c_def sub_def other_def co_def)
    define sub' where "sub' = tree_del ?ok ?o k sub"
    have td: "tree_del ?ok ?o k ?t = (if d' then Node sub' a k' v' other else Node other a k' v' sub')"
      using False by (simp add: sub_def sub'_def other_def d'_def)
    have rcs: "del_rc ?ok k ?t = del_rc ?ok k sub" "del_out ?ok k old ?t = del_out ?ok k old sub"
      "del_freed ?ok k ?t = del_freed ?ok k sub"
      using False by (simp_all add: sub_def d'_def)
    have sub'_sub: "addrs sub' \<subseteq> addrs sub" unfolding sub'_def by (rule addrs_tree_del)
    have pc: "\<forall>p. parent = Some p \<longrightarrow> p \<noteq> a \<and> p \<notin> addrs sub \<and> p \<notin> addrs other"
      using lk sub(6) by (auto simp: link_ok_def)
    have lks: "link s parent d = Some a" using lk by (simp add: link_ok_def)
    show ?thesis
    proof (cases c)
      case None
      then have subL: "sub = Leaf" using sub(1) by (simp add: is_tree_NoneD)
      from run False n(2,3) None obtain s1 where
        s1: "pthread_mutex_unlock s a = Some s'" and r: "res = - 1" "out = old"
        by (subst (asm) delete_from_unfold) (auto simp: c_def d'_def split: bind_splits)
      note u = unlock_SomeD[OF s1]
      have same: "tree_del ?ok ?o k ?t = ?t"
        unfolding td sub'_def subL using subL by (auto simp: sub_def other_def split: if_splits)
      have link': "link s' parent d = Some a"
        using u(1,3) lks link_eqI[of s' s parent d] by simp
      show ?thesis unfolding n(1)
      proof (rule del_postI)
        show "is_tree (nodes s') (link s' parent d) (tree_del ?ok ?o k ?t)"
          unfolding same link' using Node.prems(1) n(1)
          by (subst is_tree_cong_core[of _ "nodes s'" "nodes s"]) (simp_all add: u(1))
        show "res = del_rc ?ok k ?t" unfolding rcs subL using r by simp
        show "out = del_out ?ok k old ?t" unfolding rcs subL using r by simp
        show "\<forall>x. x \<notin> addrs ?t \<longrightarrow> Some x \<noteq> parent \<longrightarrow> core (nodes s') x = core (nodes s) x"
          using u(1) by simp
        show "\<forall>p. parent = Some p \<longrightarrow> root s' = root s" using u(3) by simp
        show "\<forall>p. parent = Some p \<longrightarrow>
          core (nodes s') p =
            map_option (\<lambda>n. if d then n\<lparr>left := link s' parent d\<rparr> else n\<lparr>right := link s' parent d\<rparr>)
              (core (nodes s) p)"
        proof (intro allI impI)
          fix p assume p: "parent = Some p"
          have e: "core (nodes s') p = core (nodes s) p" using u(1) by simp
          show "core (nodes s') p =
            map_option (\<lambda>n. if d then n\<lparr>left := link s' parent d\<rparr> else n\<lparr>right := link s' parent d\<rparr>)
              (core (nodes s) p)"
            unfolding p e by (rule self_link[OF e])
        qed
        show "\<forall>x\<in>addrs ?t - addrs (tree_del ?ok ?o k ?t). nodes s' x = None"
          unfolding same by simp
        show "res \<noteq> - 1 \<longrightarrow>
          (\<forall>x. locked (nodes s') x = (x \<noteq> a \<and> Some x \<noteq> parent \<and> locked (nodes s) x))"
          using r by simp
        show "rwlock s' = rwlock s" by (rule u(4))
        show "events s' = events s @ (case del_freed ?ok k ?t of None \<Rightarrow> [] | Some a \<Rightarrow> [Free_node a])"
          unfolding rcs subL using u(5) by simp
      qed
    next
      case (Some nx)
      from run False n(2,3) Some obtain s1 s2 where
        s1: "pthread_mutex_lock s nx = Some s1" and
        s2: "unlock_if s1 parent = Some s2" and
        rec: "delete_from e k old s2 (Some a) nx = Some (res, out, s')"
        by (subst (asm) delete_from_unfold) (auto simp: c_def d'_def split: bind_splits)
      note l1 = lock_SomeD[OF s1] and u2 = unlock_if_SomeD[OF s2]
      have c2: "core (nodes s2) = core (nodes s)" using l1(1) u2(1) by simp
      have nx: "nx \<in> addrs sub" using sub(1) Some by (auto elim!: is_tree_SomeE)
      have nxs: "nx \<noteq> a" "\<forall>p. parent = Some p \<longrightarrow> nx \<noteq> p" using nx sub(2) pc by auto
      have t2: "is_tree (nodes s2) (Some nx) sub"
        using sub(1) Some by (subst is_tree_cong_core[of _ "nodes s2" "nodes s"]) (simp_all add: c2)
      have lc2: "locked (nodes s2) nx" using l1(2) u2(2) nxs by auto
      have ca2: "core (nodes s2) a = Some (n\<lparr>mtx := False\<rparr>)" using c2 n(2) by (simp add: core_def)
      have nco: "co \<noteq> Some nx"
      proof
        assume "co = Some nx"
        then have "nx \<in> addrs other" using sub(5) by (auto elim!: is_tree_SomeE)
        then show False using nx sub(3) by auto
      qed
      have lk2: "link_ok s2 (Some a) d' nx sub"
      proof -
        have "link s2 (Some a) d' = c" using ca2 by (simp add: link_core c_def)
        moreover have "(left pn = Some nx) = d'" if "nodes s2 a = Some pn" for pn
        proof -
          have "core (nodes s2) a = Some (pn\<lparr>mtx := False\<rparr>)" using that by (simp add: core_def)
          then have "pn\<lparr>mtx := False\<rparr> = n\<lparr>mtx := False\<rparr>" using ca2 by simp
          then have "left (pn\<lparr>mtx := False\<rparr>) = left (n\<lparr>mtx := False\<rparr>)" by simp
          then have "left pn = left n" by simp
          then show ?thesis using Some nco by (cases d') (auto simp: c_def co_def)
        qed
        ultimately show ?thesis using Some sub(2) by (simp add: link_ok_def)
      qed
      have IH: "del_post e k old s2 (Some a) d' nx sub res out s'"
      proof (cases d')
        case True
        then show ?thesis using Node.IH(1)[OF _ _ lc2 rec, of d'] t2 lk2 by (simp add: sub_def)
      next
        case False
        then show ?thesis using Node.IH(2)[OF _ _ lc2 rec, of d'] t2 lk2 by (simp add: sub_def)
      qed
      define c' where "c' = link s' (Some a) d'"
      have IH1: "is_tree (nodes s') c' sub'"
        and IH2: "res = del_rc ?ok k sub" "out = del_out ?ok k old sub"
        and IH3: "\<forall>x. x \<notin> addrs sub \<longrightarrow> x \<noteq> a \<longrightarrow> core (nodes s') x = core (nodes s) x"
        and IH4: "root s' = root s"
        and IH5: "core (nodes s') a = Some (if d' then n\<lparr>mtx := False\<rparr>\<lparr>left := c'\<rparr> else n\<lparr>mtx := False\<rparr>\<lparr>right := c'\<rparr>)"
        and IH6: "\<forall>x\<in>addrs sub - addrs sub'. nodes s' x = None"
        and IH7: "res \<noteq> - 1 \<longrightarrow> (\<forall>x. locked (nodes s') x = (x \<noteq> nx \<and> x \<noteq> a \<and> locked (nodes s2) x))"
        and IH8: "rwlock s' = rwlock s"
          "events s' = events s @ (case del_freed ?ok k sub of None \<Rightarrow> [] | Some a \<Rightarrow> [Free_node a])"
        using IH c2 ca2 l1(4-6) u2(3-5) unfolding del_post_def sub'_def c'_def
        by simp_all
      from IH5 obtain n' where n': "nodes s' a = Some n'"
        "n'\<lparr>mtx := False\<rparr> = (if d' then n\<lparr>mtx := False\<rparr>\<lparr>left := c'\<rparr> else n\<lparr>mtx := False\<rparr>\<lparr>right := c'\<rparr>)"
        by (auto simp: core_def)
      from n'(2) have "key (n'\<lparr>mtx := False\<rparr>) = key n" "val (n'\<lparr>mtx := False\<rparr>) = val n"
        "left (n'\<lparr>mtx := False\<rparr>) = (if d' then c' else left n)"
        "right (n'\<lparr>mtx := False\<rparr>) = (if d' then right n else c')"
        by (simp_all split: if_splits)
      then have n'f: "key n' = k'" "val n' = v'" "left n' = (if d' then c' else left n)"
        "right n' = (if d' then right n else c')"
        using n(3,4) by simp_all
      have o': "is_tree (nodes s') co other"
      proof (subst is_tree_cong_core[of _ "nodes s'" "nodes s"])
        show "\<forall>x\<in>addrs other. core (nodes s') x = core (nodes s) x"
          using IH3 sub(3,4) by auto
        show "is_tree (nodes s) co other" by (rule sub(5))
      qed
      have tree': "is_tree (nodes s') (Some a) (tree_del ?ok ?o k ?t)"
        unfolding td using n'(1) n'f o' IH1 sub(2,3,4) sub'_sub
        by (auto simp: co_def Int_commute)
      have link': "link s' parent d = Some a"
      proof -
        have "link s' parent d = link s parent d"
          using IH4 IH3 pc by (intro link_eqI) auto
        then show ?thesis using lks by simp
      qed
      show ?thesis unfolding n(1)
      proof (rule del_postI)
        show "is_tree (nodes s') (link s' parent d) (tree_del ?ok ?o k ?t)"
          unfolding link' by (rule tree')
        show "res = del_rc ?ok k ?t" unfolding rcs by (rule IH2)
        show "out = del_out ?ok k old ?t" unfolding rcs by (rule IH2)
        show "\<forall>x. x \<notin> addrs ?t \<longrightarrow> Some x \<noteq> parent \<longrightarrow> core (nodes s') x = core (nodes s) x"
          using IH3 sub(6) by simp
        show "\<forall>p. parent = Some p \<longrightarrow> root s' = root s" using IH4 by simp
        show "\<forall>p. parent = Some p \<longrightarrow>
          core (nodes s') p =
            map_option (\<lambda>n. if d then n\<lparr>left := link s' parent d\<rparr> else n\<lparr>right := link s' parent d\<rparr>)
              (core (nodes s) p)"
        proof (intro allI impI)
          fix p assume p: "parent = Some p"
          have e: "core (nodes s') p = core (nodes s) p" using IH3 pc p by simp
          show "core (nodes s') p =
            map_option (\<lambda>n. if d then n\<lparr>left := link s' parent d\<rparr> else n\<lparr>right := link s' parent d\<rparr>)
              (core (nodes s) p)"
            unfolding p e by (rule self_link[OF e])
        qed
        have "addrs ?t - addrs (tree_del ?ok ?o k ?t) \<subseteq> addrs sub - addrs sub'"
          unfolding td sub(6) using sub(2,3,4) by (auto split: if_splits)
        then show "\<forall>x\<in>addrs ?t - addrs (tree_del ?ok ?o k ?t). nodes s' x = None"
          using IH6 by blast
        show "res \<noteq> - 1 \<longrightarrow>
          (\<forall>x. locked (nodes s') x = (x \<noteq> a \<and> Some x \<noteq> parent \<and> locked (nodes s) x))"
          using IH7 l1(2,3) u2(2) by auto
        show "rwlock s' = rwlock s" by (rule IH8)
        show "events s' = events s @ (case del_freed ?ok k ?t of None \<Rightarrow> [] | Some a \<Rightarrow> [Free_node a])"
          unfolding rcs by (rule IH8)
      qed
    qed
  qed
qed


lemma core_dom:
  assumes "core h' = core h"
  shows "dom h' = dom h"
proof -
  have "(h' x = None) = (h x = None)" for x
    using fun_cong[OF assms, of x] by (cases "h' x"; cases "h x") (simp_all add: core_def)
  then show ?thesis by (auto simp: dom_def)
qed

lemma node_free_total: "a \<in> dom (nodes s) \<Longrightarrow> \<exists>s1. node_free s (Some a) fv = Some s1"
  by (auto simp: node_free_def)

lemma delete_case1_total:
  assumes "cur \<in> dom (nodes s)" and "\<forall>p. parent = Some p \<longrightarrow> p \<in> dom (nodes s)"
  shows "\<exists>s'. delete_case1 s parent cur = Some s'"
proof -
  from assms(1) obtain n where n: "nodes s cur = Some n" by auto
  define child where "child = (if left n \<noteq> None then left n else right n)"
  have "\<exists>s1. (case parent of
             None \<Rightarrow> Some (s\<lparr>root := child\<rparr>)
           | Some p \<Rightarrow> do {
               pn \<leftarrow> nodes s p;
               if left pn = Some cur then store s p (\<lambda>n. n\<lparr>left := child\<rparr>)
               else store s p (\<lambda>n. n\<lparr>right := child\<rparr>)
             }) = Some s1 \<and> dom (nodes s1) = dom (nodes s)"
  proof (cases parent)
    case None
    then show ?thesis by simp
  next
    case (Some p)
    then obtain pn where "nodes s p = Some pn" using assms(2) by auto
    then show ?thesis using Some by (auto simp: store_def)
  qed
  then obtain s1 where s1: "(case parent of
             None \<Rightarrow> Some (s\<lparr>root := child\<rparr>)
           | Some p \<Rightarrow> do {
               pn \<leftarrow> nodes s p;
               if left pn = Some cur then store s p (\<lambda>n. n\<lparr>left := child\<rparr>)
               else store s p (\<lambda>n. n\<lparr>right := child\<rparr>)
             }) = Some s1" and d1: "dom (nodes s1) = dom (nodes s)" by blast
  obtain s2 where s2: "pthread_mutex_unlock s1 cur = Some s2"
    using unlock_total[of cur s1] assms(1) d1 by auto
  have d2: "dom (nodes s2) = dom (nodes s)" using unlock_SomeD(6)[OF s2] d1 by simp
  have "\<forall>a. parent = Some a \<longrightarrow> a \<in> dom (nodes s2)" using assms(2) d2 by simp
  then obtain s3 where s3: "unlock_if s2 parent = Some s3"
    using unlock_if_total[of parent s2] by blast
  have d3: "dom (nodes s3) = dom (nodes s)" using unlock_if_SomeD(6)[OF s3] d2 by simp
  obtain s4 where s4: "node_free s3 (Some cur) False = Some s4"
    using node_free_total[of cur s3] assms(1) d3 by auto
  have "do {
     s1 \<leftarrow> (case parent of
             None \<Rightarrow> Some (s\<lparr>root := child\<rparr>)
           | Some p \<Rightarrow> do {
               pn \<leftarrow> nodes s p;
               if left pn = Some cur then store s p (\<lambda>n. n\<lparr>left := child\<rparr>)
               else store s p (\<lambda>n. n\<lparr>right := child\<rparr>)
             });
     s2 \<leftarrow> pthread_mutex_unlock s1 cur;
     s3 \<leftarrow> unlock_if s2 parent;
     node_free s3 (Some cur) False
   } = Some s4"
    using s1 s2 s3 s4 by simp
  then have "delete_case1 s parent cur = Some s4"
    unfolding delete_case1_def Let_def n child_def by simp
  then show ?thesis by blast
qed

lemma delete_case2_total:
  assumes t: "is_tree (nodes s) (Some cur) (Node l cur k v r)"
    and nl: "r \<noteq> Leaf"
    and unl: "\<forall>x\<in>addrs r. \<not> locked (nodes s) x"
    and lc: "locked (nodes s) cur"
    and par: "\<forall>p. parent = Some p \<longrightarrow> p \<in> dom (nodes s)"
  shows "\<exists>res. delete_case2 e s parent cur old1 = Some res"
proof -
  from t obtain n where n: "nodes s cur = Some n" "key n = k" "val n = v"
    "is_tree (nodes s) (left n) l" "is_tree (nodes s) (right n) r"
    "cur \<notin> addrs l" "cur \<notin> addrs r" "addrs l \<inter> addrs r = {}"
    by (auto split: option.splits)
  from n(5) nl obtain cr where cr: "right n = Some cr" by (cases r; cases "right n") auto
  have crr: "cr \<in> addrs r" "cr \<in> dom (nodes s)" using n(5) cr by (auto elim!: is_tree_SomeE)
  from min_node_Some[OF nl] obtain sa sk sv where m: "min_node r = Some (sa, sk, sv)" by blast
  have sa_r: "sa \<in> addrs r" using min_node_addrs[OF m] .
  have rdom: "addrs r \<subseteq> dom (nodes s)" using is_tree_addrs_dom[OF n(5)] .
  obtain sA where sA: "pthread_mutex_lock s cr = Some sA"
    using lock_total[OF crr(2)] unl crr(1) by blast
  note la = lock_SomeD[OF sA]
  have tA: "is_tree (nodes sA) (Some cr) r"
    using n(5) cr by (subst is_tree_cong_core[of _ "nodes sA" "nodes s"]) (simp_all add: la(1))
  have "\<forall>x\<in>addrs r. x \<noteq> cr \<longrightarrow> \<not> locked (nodes sA) x" using unl la(2) by simp
  moreover have "cur \<in> dom (nodes sA)" using n(1) la(7) by auto
  ultimately obtain sB sp succ where fm: "find_min_loop sA cur cr = Some (sB, sp, succ)"
    using find_min_loop_total[OF tA, of cur] by (metis prod_cases3)
  have fml: "find_min_locked s cur = Some (sB, sp, succ)"
    using n(1) cr sA fm by (simp add: find_min_locked_def)
  have "locked (nodes sA) cur" "locked (nodes sA) cr" using la(2) lc by simp_all
  from find_min_loop_post[OF tA fm this n(7)] m
  have fmp: "succ = sa" "sp = min_parent cur r" "core (nodes sB) = core (nodes s)"
    using la(1) by auto
  have domB: "dom (nodes sB) = dom (nodes s)"
    using core_dom[OF fmp(3)] .
  have sp_dom: "sp \<in> dom (nodes s)" using min_parent_addrs[of cur r] fmp(2) rdom n(1) by auto
  have sa_dom: "sa \<in> dom (nodes s)" using sa_r rdom by auto
  have cur_dom: "cur \<in> dom (nodes s)" using n(1) by auto
  obtain sn where sn: "nodes sB sa = Some sn" using sa_dom domB by auto
  have un: "\<exists>s1. pthread_mutex_unlock s0 x = Some s1 \<and> dom (nodes s1) = dom (nodes s)"
    if "dom (nodes s0) = dom (nodes s)" "x \<in> dom (nodes s)" for s0 :: "'a memory" and x
    using unlock_total[of x s0] that unlock_SomeD(6)[of s0 x] by auto
  have unp: "\<exists>s1. unlock_if s0 parent = Some s1 \<and> dom (nodes s1) = dom (nodes s)"
    if "dom (nodes s0) = dom (nodes s)" for s0 :: "'a memory"
    using unlock_if_total[of parent s0] that par unlock_if_SomeD(6)[of s0 parent] by auto
  have st: "\<exists>s1. store s0 x f = Some s1 \<and> dom (nodes s1) = dom (nodes s)"
    if "dom (nodes s0) = dom (nodes s)" "x \<in> dom (nodes s)" for s0 :: "'a memory" and x f
    using store_total[of x s0 f] that store_dom[of s0 x f] by auto
  show ?thesis
  proof (cases "strdup_ok e")
    case False
    obtain s2 where s2: "pthread_mutex_unlock sB sa = Some s2" "dom (nodes s2) = dom (nodes s)"
      using un[OF domB sa_dom] by blast
    obtain s3 where s3: "pthread_mutex_unlock s2 sp = Some s3" "dom (nodes s3) = dom (nodes s)"
      using un[OF s2(2) sp_dom] by blast
    obtain s4 where s4: "pthread_mutex_unlock s3 cur = Some s4" "dom (nodes s4) = dom (nodes s)"
      using un[OF s3(2) cur_dom] by blast
    obtain s5 where s5: "unlock_if s4 parent = Some s5" using unp[OF s4(2)] by blast
    show ?thesis using fml fmp(1) sn False s2 s3 s4 s5 by (simp add: delete_case2_def)
  next
    case True
    obtain s2 where s2: "store sB cur (\<lambda>n. n\<lparr>key := key sn\<rparr>) = Some s2" "dom (nodes s2) = dom (nodes s)"
      using st[OF domB cur_dom] by blast
    obtain sn2 where sn2: "nodes s2 sa = Some sn2" using sa_dom s2(2) by auto
    obtain o2 s3 where s3: "(if old1 \<noteq> None then Some (Some (val sn2), s2)
           else do { s' \<leftarrow> store s2 cur (\<lambda>n. n\<lparr>val := val sn2\<rparr>); Some (old1, s') }) = Some (o2, s3)"
       "dom (nodes s3) = dom (nodes s)"
      using st[OF s2(2) cur_dom, of "\<lambda>n. n\<lparr>val := val sn2\<rparr>"] s2(2) by (cases "old1 \<noteq> None") auto
    obtain sn3 where sn3: "nodes s3 sa = Some sn3" using sa_dom s3(2) by auto
    obtain s4 where s4: "(if sp = cur then store s3 cur (\<lambda>n. n\<lparr>right := right sn3\<rparr>)
              else store s3 sp (\<lambda>n. n\<lparr>left := right sn3\<rparr>)) = Some s4" "dom (nodes s4) = dom (nodes s)"
      using st[OF s3(2) cur_dom, of "\<lambda>n. n\<lparr>right := right sn3\<rparr>"]
        st[OF s3(2) sp_dom, of "\<lambda>n. n\<lparr>left := right sn3\<rparr>"] by (cases "sp = cur") auto
    obtain s5 where s5: "pthread_mutex_unlock s4 sa = Some s5" "dom (nodes s5) = dom (nodes s)"
      using un[OF s4(2) sa_dom] by blast
    obtain s6 where s6: "pthread_mutex_unlock s5 sp = Some s6" "dom (nodes s6) = dom (nodes s)"
      using un[OF s5(2) sp_dom] by blast
    obtain s7 where s7: "pthread_mutex_unlock s6 cur = Some s7" "dom (nodes s7) = dom (nodes s)"
      using un[OF s6(2) cur_dom] by blast
    obtain s8 where s8: "unlock_if s7 parent = Some s8" "dom (nodes s8) = dom (nodes s)"
      using unp[OF s7(2)] by blast
    obtain s9 where s9: "node_free s8 (Some sa) False = Some s9"
      using node_free_total[of sa s8] sa_dom s8(2) by auto
    show ?thesis using fml fmp(1) sn True s2(1) sn2 s3(1) sn3 s4(1) s5(1) s6(1) s7(1) s8(1) s9
      by (simp add: delete_case2_def)
  qed
qed


lemma delete_node_total:
  assumes t: "is_tree (nodes s) (Some cur) (Node l cur k v r)"
    and unl: "\<forall>x\<in>addrs r. \<not> locked (nodes s) x"
    and lc: "locked (nodes s) cur"
    and par: "\<forall>p. parent = Some p \<longrightarrow> p \<in> dom (nodes s)"
  shows "\<exists>res. delete_node e s parent cur old = Some res"
proof -
  from t obtain n where n: "nodes s cur = Some n" "is_tree (nodes s) (right n) r"
    by (auto split: option.splits)
  have cd: "cur \<in> dom (nodes s)" using n(1) by auto
  show ?thesis
  proof (cases "left n = None \<or> right n = None")
    case True
    from delete_case1_total[OF cd par] obtain s1 where "delete_case1 s parent cur = Some s1" by blast
    then show ?thesis using n(1) True by (simp add: delete_node_def Let_def)
  next
    case False
    then have "r \<noteq> Leaf" using n(2) by auto
    from delete_case2_total[OF t this unl lc par] False n(1)
    show ?thesis by (auto simp: delete_node_def Let_def)
  qed
qed

lemma delete_from_total:
  assumes "is_tree (nodes s) (Some cur) t"
    and "\<forall>x\<in>addrs t. x \<noteq> cur \<longrightarrow> \<not> locked (nodes s) x"
    and "locked (nodes s) cur"
    and "\<forall>p. parent = Some p \<longrightarrow> p \<in> dom (nodes s) \<and> p \<notin> addrs t"
  shows "\<exists>res. delete_from e k old s parent cur = Some res"
  using assms
proof (induction t arbitrary: s parent cur)
  case Leaf
  then show ?case by simp
next
  case (Node l a k' v' r)
  from Node.prems(1) obtain n where n: "cur = a" "nodes s a = Some n" "key n = k'" "val n = v'"
    "is_tree (nodes s) (left n) l" "is_tree (nodes s) (right n) r"
    "a \<notin> addrs l" "a \<notin> addrs r" "addrs l \<inter> addrs r = {}"
    by (auto split: option.splits)
  have a_dom: "a \<in> dom (nodes s)" using n(2) by auto
  note unl = Node.prems(2)[unfolded n(1)]
  note lc = Node.prems(3)[unfolded n(1)]
  note par = Node.prems(4)
  have pdom: "\<forall>p. parent = Some p \<longrightarrow> p \<in> dom (nodes s)" using par by simp
  show ?case
  proof (cases "k = k'")
    case True
    have "\<forall>x\<in>addrs r. \<not> locked (nodes s) x" using unl n(8) by auto
    from delete_node_total[OF Node.prems(1)[unfolded n(1)] this lc pdom, of e old]
    show ?thesis unfolding n(1) using True n(2,3)
      by (subst delete_from_unfold) simp
  next
    case False
    define c where "c = (if k < k' then left n else right n)"
    define sub where "sub = (if k < k' then l else r)"
    have sub: "is_tree (nodes s) c sub" "a \<notin> addrs sub" "addrs sub \<subseteq> addrs (Node l a k' v' r)"
      using n by (auto simp: c_def sub_def)
    show ?thesis
    proof (cases c)
      case None
      obtain s1 where "pthread_mutex_unlock s a = Some s1" using unlock_total[OF a_dom] by blast
      then show ?thesis unfolding n(1) using None False n(2,3)
        by (subst delete_from_unfold) (simp add: c_def)
    next
      case (Some nx)
      then have nx: "nx \<in> addrs sub" "nx \<in> dom (nodes s)"
        using sub(1) by (auto elim!: is_tree_SomeE)
      have subunl: "\<forall>x\<in>addrs sub. \<not> locked (nodes s) x"
        using unl sub(2,3) by (metis subsetD)
      then obtain s1 where s1: "pthread_mutex_lock s nx = Some s1"
        using lock_total[OF nx(2)] nx(1) by blast
      note l1 = lock_SomeD[OF s1]
      have "\<forall>a. parent = Some a \<longrightarrow> a \<in> dom (nodes s1)" using pdom l1(7) by simp
      then obtain s2 where s2: "unlock_if s1 parent = Some s2"
        using unlock_if_total[of parent s1] by blast
      note u2 = unlock_if_SomeD[OF s2]
      have c2: "core (nodes s2) = core (nodes s)" using l1(1) u2(1) by simp
      have t2: "is_tree (nodes s2) (Some nx) sub"
        using sub(1) Some by (subst is_tree_cong_core[of _ "nodes s2" "nodes s"]) (simp_all add: c2)
      have l2: "\<forall>x\<in>addrs sub. x \<noteq> nx \<longrightarrow> \<not> locked (nodes s2) x"
        using subunl l1(2) u2(2) by simp
      have "Some nx \<noteq> parent" using par nx(1) sub(3) by auto
      then have lc2: "locked (nodes s2) nx" using l1(2) u2(2) by simp
      have p2: "\<forall>p. Some a = Some p \<longrightarrow> p \<in> dom (nodes s2) \<and> p \<notin> addrs sub"
        using a_dom l1(7) u2(6) sub(2) by simp
      have "\<exists>res. delete_from e k old s2 (Some a) nx = Some res"
      proof (cases "k < k'")
        case True
        then show ?thesis using Node.IH(1)[OF _ _ lc2, of "Some a"] p2 t2 l2 by (simp add: sub_def)
      next
        case False
        then show ?thesis using Node.IH(2)[OF _ _ lc2, of "Some a"] p2 t2 l2 by (simp add: sub_def)
      qed
      then show ?thesis unfolding n(1) using Some False n(2,3) s1 s2
        by (subst delete_from_unfold) (simp add: c_def)
    qed
  qed
qed

lemma bt_delete_unfold:
  "bt_delete e s (Some ()) (Some k) old = do {
        s1 \<leftarrow> pthread_rwlock_wrlock s;
        (result, out, s3) \<leftarrow>
          (case root s1 of
             None \<Rightarrow> Some (- 1, old, s1)
           | Some r \<Rightarrow> do {
               s2 \<leftarrow> pthread_mutex_lock s1 r;
               delete_from e k old s2 None r
             });
        s4 \<leftarrow> pthread_rwlock_unlock s3;
        Some (result, out, s4)
      }"
  unfolding bt_delete_def option.sel by simp

lemma bt_delete_post:
  assumes T: "is_tree (nodes s) (root s) T"
    and run: "bt_delete e s (Some ()) (Some k) old = Some (res, out, s')"
  shows "is_tree (nodes s') (root s') (tree_del (strdup_ok e) (old \<noteq> None) k T) \<and>
     res = del_rc (strdup_ok e) k T \<and>
     out = del_out (strdup_ok e) k old T \<and>
     (\<forall>x. x \<notin> addrs T \<longrightarrow> core (nodes s') x = core (nodes s) x) \<and>
     (\<forall>x\<in>addrs T - addrs (tree_del (strdup_ok e) (old \<noteq> None) k T). nodes s' x = None) \<and>
     (res \<noteq> - 1 \<longrightarrow> (\<forall>x. locked (nodes s') x = locked (nodes s) x)) \<and>
     rwlock s = Unlocked \<and> rwlock s' = Unlocked \<and>
     events s' = events s @
       (case del_freed (strdup_ok e) k T of None \<Rightarrow> [] | Some a \<Rightarrow> [Free_node a])"
proof -
  from run obtain s1 s3 where s1: "pthread_rwlock_wrlock s = Some s1"
    and body: "(case root s1 of
             None \<Rightarrow> Some (- 1, old, s1)
           | Some r \<Rightarrow> do {
               s2 \<leftarrow> pthread_mutex_lock s1 r;
               delete_from e k old s2 None r
             }) = Some (res, out, s3)"
    and s4: "pthread_rwlock_unlock s3 = Some s'"
    by (auto simp: bt_delete_unfold split: bind_splits)
  note w = wrlock_SomeD[OF s1]
  have s'I: "s' = s3\<lparr>rwlock := Unlocked\<rparr>" if "rwlock s3 = WriteLocked"
    using rwunlock_SomeD[OF s4 that] .
  show ?thesis
  proof (cases "root s")
    case None
    then have TL: "T = Leaf" using T by (simp add: is_tree_NoneD)
    have rc: "res = - 1" "out = old" "s3 = s1" using body None w by auto
    then have s': "s' = s3\<lparr>rwlock := Unlocked\<rparr>" using s'I w by simp
    show ?thesis using rc s' w None TL T by simp
  next
    case (Some r)
    from body Some w obtain s2 where s2: "pthread_mutex_lock s1 r = Some s2"
      and df: "delete_from e k old s2 None r = Some (res, out, s3)"
      by (auto split: bind_splits)
    note l = lock_SomeD[OF s2]
    have t2: "is_tree (nodes s2) (Some r) T"
      using T Some w by (subst is_tree_cong_core[of _ "nodes s2" "nodes s"]) (simp_all add: l(1))
    have lk: "link_ok s2 None True r T" using l(4) w Some by (simp add: link_ok_def link_def)
    have lc: "locked (nodes s2) r" using l(2) by simp
    from delete_from_post[OF t2 lk lc df] have p: "del_post e k old s2 None True r T res out s3" .
    have "rwlock s3 = WriteLocked" using p w l(5) by (simp add: del_post_def)
    then have s': "s' = s3\<lparr>rwlock := Unlocked\<rparr>" by (rule s'I)
    have "link s' None True = root s'" by (simp add: link_def)
    then show ?thesis using p s' w l unfolding del_post_def
      by (auto simp: link_def)
  qed
qed

lemma bt_delete_total:
  assumes T: "is_tree (nodes s) (root s) T"
    and unl: "\<forall>x\<in>addrs T. \<not> locked (nodes s) x"
    and rw: "rwlock s = Unlocked"
  shows "\<exists>res. bt_delete e s (Some ()) (Some k) old = Some res"
proof -
  define s1 where "s1 = s\<lparr>rwlock := WriteLocked\<rparr>"
  have s1: "pthread_rwlock_wrlock s = Some s1" using rw by (simp add: pthread_rwlock_wrlock_def s1_def)
  show ?thesis
  proof (cases "root s")
    case None
    then show ?thesis using s1
      by (auto simp: bt_delete_unfold s1_def pthread_rwlock_unlock_def)
  next
    case (Some r)
    have r: "r \<in> addrs T" "r \<in> dom (nodes s)" using T Some by (auto elim!: is_tree_SomeE)
    then obtain s2 where s2: "pthread_mutex_lock s1 r = Some s2"
      using lock_total[of r s1] unl by (auto simp: s1_def)
    note l = lock_SomeD[OF s2]
    have t2: "is_tree (nodes s2) (Some r) T"
      using T Some by (subst is_tree_cong_core[of _ "nodes s2" "nodes s"]) (simp_all add: l(1) s1_def)
    have u2: "\<forall>x\<in>addrs T. x \<noteq> r \<longrightarrow> \<not> locked (nodes s2) x"
      using unl l(2) by (simp add: s1_def)
    have lc: "locked (nodes s2) r" using l(2) by simp
    from delete_from_total[OF t2 u2 lc, of None e k old] obtain res out s3 where
      df: "delete_from e k old s2 None r = Some (res, out, s3)" by auto
    have lk: "link_ok s2 None True r T" using l(4) Some by (simp add: link_ok_def link_def s1_def)
    have "rwlock s3 = WriteLocked"
      using delete_from_post[OF t2 lk lc df] l(5) by (simp add: s1_def del_post_def)
    then show ?thesis using Some s1 s2 df
      by (auto simp: bt_delete_unfold s1_def pthread_rwlock_unlock_def)
  qed
qed

section \<open>The operations on the tree as a value\<close>

lemma bst_iff_sorted: "bst t \<longleftrightarrow> sorted_wrt (<) (keys t)"
proof (induction t)
  case Leaf
  show ?case by simp
next
  case (Node l a k v r)
  have "(\<forall>x\<in>set (keys l). \<forall>y\<in>set (keys r). x < y)"
    if "\<forall>x\<in>set (keys l). x < k" "\<forall>x\<in>set (keys r). k < x"
    using that by (meson less_trans)
  then show ?case using Node by (auto simp: sorted_wrt_append)
qed

lemma bst_iff_sorted_strcmp: "bst t \<longleftrightarrow> sorted_wrt (\<lambda>x y. strcmp x y < 0) (keys t)"
  by (simp add: bst_iff_sorted)

lemma set_keys_tree_add:
  "set (keys (tree_add new k v t)) \<subseteq> insert k (set (keys t))"
  "set (keys t) \<subseteq> set (keys (tree_add new k v t))"
  by (induction t) (auto split: option.splits)

lemma bst_tree_add: "bst t \<Longrightarrow> bst (tree_add new k v t)"
proof (induction t)
  case Leaf
  then show ?case by (cases new) auto
next
  case (Node l a k' v' r)
  then show ?case using set_keys_tree_add(1)[of new k v l] set_keys_tree_add(1)[of new k v r]
    by (auto simp: not_less_iff_gr_or_eq)
qed

lemma keys_del_min: "min_node r = Some (sa, sk, sv) \<Longrightarrow> keys r = sk # keys (del_min r)"
  by (induction r) (auto split: if_splits)

lemma filter_neq_id: "k \<notin> set xs \<Longrightarrow> filter (\<lambda>x. x \<noteq> k) xs = xs"
  by (induction xs) auto

lemma keys_tree_del:
  "bst t \<Longrightarrow> keys (tree_del True out k t) = filter (\<lambda>x. x \<noteq> k) (keys t)"
proof (induction t)
  case Leaf
  show ?case by simp
next
  case (Node l a k' v' r)
  have bl: "bst l" and br: "bst r" and
    lt: "\<forall>x\<in>set (keys l). x < k'" and gt: "\<forall>x\<in>set (keys r). k' < x"
    using Node.prems by auto
  consider (eq) "k = k'" | (lt) "k < k'" | (gt) "k' < k" by (meson less_linear)
  then show ?case
  proof cases
    case eq
    have nl: "k \<notin> set (keys l)" "k \<notin> set (keys r)" using lt gt eq by auto
    show ?thesis
    proof (cases "l = Leaf \<or> r = Leaf")
      case True
      then show ?thesis using eq nl by (auto simp: filter_neq_id)
    next
      case False
      then obtain sa sk sv where m: "min_node r = Some (sa, sk, sv)"
        using min_node_Some[of r] by blast
      have "k' < sk" using gt keys_del_min[OF m] by simp
      then have "sk \<noteq> k'" by simp
      then show ?thesis using False eq nl m keys_del_min[OF m] by (simp add: filter_neq_id)
    qed
  next
    case lt
    then have "k \<notin> set (keys r)" "k \<noteq> k'" using gt by auto
    then show ?thesis using lt Node.IH(1)[OF bl] by (simp add: filter_neq_id)
  next
    case gt
    then have "k \<notin> set (keys l)" "k \<noteq> k'" "\<not> k < k'" using lt by auto
    then show ?thesis using Node.IH(2)[OF br] by (simp add: filter_neq_id)
  qed
qed

lemma tree_del_not_ok:
  "tree_del False out k t = (if del_rc False k t = ENOMEM then t else tree_del True out k t)"
proof (induction t)
  case Leaf
  show ?case by (simp add: ENOMEM_def)
next
  case (Node l a k' v' r)
  show ?case
  proof (cases "k = k'")
    case True
    show ?thesis
    proof (cases "l = Leaf \<or> r = Leaf")
      case True
      then show ?thesis using \<open>k = k'\<close> by (auto simp: ENOMEM_def)
    next
      case False
      then obtain sa sk sv where m: "min_node r = Some (sa, sk, sv)"
        using min_node_Some[of r] by blast
      show ?thesis using False \<open>k = k'\<close> m by simp
    qed
  next
    case False
    then show ?thesis using Node by simp
  qed
qed

lemma tree_del_ENOMEM: "del_rc ok k t = ENOMEM \<Longrightarrow> tree_del ok out k t = t \<and> del_freed ok k t = None"
proof (induction t)
  case Leaf
  then show ?case by (simp add: ENOMEM_def)
next
  case (Node l a k' v' r)
  show ?case
  proof (cases "k = k'")
    case True
    with Node.prems have c: "l \<noteq> Leaf" "r \<noteq> Leaf" "\<not> ok"
      by (auto simp: ENOMEM_def split: if_splits)
    then show ?thesis using True by (cases "min_node r") auto
  next
    case False
    then show ?thesis using Node by (cases "k < k'") simp_all
  qed
qed

lemma bst_tree_del: "bst t \<Longrightarrow> bst (tree_del ok out k t)"
proof (cases ok)
  case True
  assume "bst t"
  then show ?thesis using True keys_tree_del[of t out k]
    by (simp add: bst_iff_sorted sorted_wrt_filter)
next
  case False
  assume "bst t"
  then show ?thesis using False keys_tree_del[of t out k] tree_del_not_ok[of out k t]
    by (simp add: bst_iff_sorted sorted_wrt_filter)
qed

lemma tree_add_ENOMEM: "add_rc new k t = ENOMEM \<Longrightarrow> tree_add new k v t = t"
  by (induction t) (auto simp: ENOMEM_def split: option.splits if_splits)

lemma tree_find_keys: "tree_find k t = Some (a, v) \<Longrightarrow> k \<in> set (keys t)"
  by (induction t) (auto split: if_splits)

lemma add_rc_find: "add_rc new k t = (if tree_find k t \<noteq> None then 1 else if new = None then ENOMEM else 0)"
  by (induction t) auto

section \<open>Calls that leave the memory as it was\<close>

lemma node_eq_upto_mtx:
  assumes "n'\<lparr>mtx := False\<rparr> = n\<lparr>mtx := False\<rparr>" "mtx n' = mtx n"
  shows "n' = (n :: 'v bt_node)"
proof (rule bt_node.equality)
  from assms(1) have "key (n'\<lparr>mtx := False\<rparr>) = key (n\<lparr>mtx := False\<rparr>)"
    "val (n'\<lparr>mtx := False\<rparr>) = val (n\<lparr>mtx := False\<rparr>)"
    "left (n'\<lparr>mtx := False\<rparr>) = left (n\<lparr>mtx := False\<rparr>)"
    "right (n'\<lparr>mtx := False\<rparr>) = right (n\<lparr>mtx := False\<rparr>)"
    by simp_all
  then show "key n' = key n" "val n' = val n" "left n' = left n" "right n' = right n"
    by simp_all
  show "mtx n' = mtx n" by (rule assms(2))
  show "bt_node.more n' = bt_node.more n" by simp
qed

lemma nodes_eqI:
  assumes "\<forall>x. core h' x = core h x" "\<forall>x. locked h' x = locked h x"
  shows "h' = h"
proof
  fix x
  show "h' x = h x"
  proof (cases "h x")
    case None
    then have "core h' x = None" using assms(1) by (simp add: core_def)
    then show ?thesis using None by (simp add: core_def)
  next
    case (Some n)
    then obtain n' where n': "h' x = Some n'" "n'\<lparr>mtx := False\<rparr> = n\<lparr>mtx := False\<rparr>"
      using assms(1)[rule_format, of x] by (auto simp: core_def)
    have "mtx n' = mtx n" using assms(2)[rule_format, of x] Some n'(1) by (simp add: locked_def)
    then show ?thesis using node_eq_upto_mtx[OF n'(2)] Some n'(1) by simp
  qed
qed

lemma is_tree_unique:
  "is_tree h p t \<Longrightarrow> is_tree h' p' t \<Longrightarrow> p = p' \<and> (\<forall>x\<in>addrs t. core h' x = core h x)"
proof (induction t arbitrary: p p')
  case Leaf
  then show ?case by simp
next
  case (Node l a k v r)
  from Node.prems(1) obtain n where n: "p = Some a" "h a = Some n" "key n = k" "val n = v"
    "is_tree h (left n) l" "is_tree h (right n) r"
    by (auto split: option.splits)
  from Node.prems(2) obtain n' where n': "p' = Some a" "h' a = Some n'" "key n' = k" "val n' = v"
    "is_tree h' (left n') l" "is_tree h' (right n') r"
    by (auto split: option.splits)
  from Node.IH(1)[OF n(5) n'(5)] have l: "left n = left n'" "\<forall>x\<in>addrs l. core h' x = core h x"
    by simp_all
  from Node.IH(2)[OF n(6) n'(6)] have r: "right n = right n'" "\<forall>x\<in>addrs r. core h' x = core h x"
    by simp_all
  have "n'\<lparr>mtx := False\<rparr> = n\<lparr>mtx := False\<rparr>"
    by (rule bt_node.equality) (simp_all add: n(3,4) n'(3,4) l(1) r(1))
  then have "core h' a = core h a" using n(2) n'(2) by (simp add: core_def)
  then show ?case using n(1) n'(1) l(2) r(2) by auto
qed

lemma memory_eqI:
  assumes "is_tree (nodes s) (root s) T" "is_tree (nodes s') (root s') T"
    and "\<forall>x. x \<notin> addrs T \<longrightarrow> core (nodes s') x = core (nodes s) x"
    and "\<forall>x. locked (nodes s') x = locked (nodes s) x"
    and "rwlock s' = rwlock s" "events s' = events s"
  shows "s' = (s :: 'v memory)"
proof (rule memory.equality)
  from is_tree_unique[OF assms(1,2)] have u: "root s = root s'" "\<forall>x\<in>addrs T. core (nodes s') x = core (nodes s) x"
    by simp_all
  show "root s' = root s" using u(1) by simp
  have "\<forall>x. core (nodes s') x = core (nodes s) x" using u(2) assms(3) by blast
  then show "nodes s' = nodes s" using assms(4) by (rule nodes_eqI)
  show "rwlock s' = rwlock s" "events s' = events s" by (rule assms)+
  show "memory.more s' = memory.more s" by simp
qed

lemma bt_add_ENOMEM_same:
  assumes T: "is_tree (nodes s) (root s) T"
    and fresh: "\<forall>a. new_node e = Some a \<longrightarrow> a \<notin> dom (nodes s)"
    and run: "bt_add e s (Some ()) (Some k) v = Some (ENOMEM, s')"
  shows "s' = s"
proof -
  note p = bt_add_post[OF T fresh run]
  from p have rc: "add_rc (new_node e) k T = ENOMEM" by simp
  have same: "tree_add (new_node e) k v T = T" using tree_add_ENOMEM[OF rc] .
  show ?thesis
  proof (rule memory_eqI[OF T])
    show "is_tree (nodes s') (root s') T" using p same by simp
    show "\<forall>x. x \<notin> addrs T \<longrightarrow> core (nodes s') x = core (nodes s) x" using p same by simp
    show "\<forall>x. locked (nodes s') x = locked (nodes s) x" using p by simp
    show "rwlock s' = rwlock s" "events s' = events s" using p by simp_all
  qed
qed

lemma bt_delete_ENOMEM_same:
  assumes T: "is_tree (nodes s) (root s) T"
    and run: "bt_delete e s (Some ()) (Some k) old = Some (ENOMEM, out, s')"
  shows "s' = s"
proof -
  note p = bt_delete_post[OF T run]
  from p have rc: "del_rc (strdup_ok e) k T = ENOMEM" by simp
  note same = tree_del_ENOMEM[OF rc, of "old \<noteq> None"]
  have ne: "ENOMEM \<noteq> - 1" by (simp add: ENOMEM_def)
  show ?thesis
  proof (rule memory_eqI[OF T])
    show "is_tree (nodes s') (root s') T" using p same by simp
    show "\<forall>x. x \<notin> addrs T \<longrightarrow> core (nodes s') x = core (nodes s) x" using p by simp
    show "\<forall>x. locked (nodes s') x = locked (nodes s) x" using p ne by simp
    show "rwlock s' = rwlock s" "events s' = events s" using p same by simp_all
  qed
qed

lemma new_node_fresh:
  "\<forall>a. calloc_ret e = Some a \<longrightarrow> a \<notin> dom (nodes s) \<Longrightarrow> \<forall>a. new_node e = Some a \<longrightarrow> a \<notin> dom (nodes s)"
  by (simp add: new_node_def)

section \<open>Facts for the claims\<close>

lemma three_nodes_tree: "is_tree (nodes three_nodes) (root three_nodes) three_tree"
  by (simp add: three_nodes_def three_tree_def)

lemma three_nodes_still: "still three_nodes three_tree"
  by (auto simp: still_def three_nodes_def three_tree_def locked_def)

lemma tree_at_key: "tree_at k t = Node l a k' v r \<Longrightarrow> k' = k"
  by (induction t) (auto split: if_splits)

lemma del_rc_at: "del_rc ok k t = del_rc ok k (tree_at k t)"
  by (induction t) auto

lemma del_out_at: "del_out ok k old t = del_out ok k old (tree_at k t)"
  by (induction t) auto

lemma del_freed_at: "del_freed ok k t = del_freed ok k (tree_at k t)"
  by (induction t) auto

lemma tree_find_at: "tree_find k t = tree_find k (tree_at k t)"
  by (induction t) auto

lemma reachable_after_add:
  assumes "reachable s" and "nodes s a = None"
    and "map_option fst (bt_add (alloc_at a) s (Some ()) (Some k) v) = Some rc"
  shows "reachable (after_add (alloc_at a) s k v)"
proof -
  from assms(3) obtain s' where "bt_add (alloc_at a) s (Some ()) (Some k) v = Some (rc, s')"
    by auto
  moreover have "\<forall>b. calloc_ret (alloc_at a) = Some b \<longrightarrow> b \<notin> dom (nodes s)"
    using assms(2) by (auto simp: alloc_at_def)
  ultimately show ?thesis using reachable.add[OF assms(1)] by (simp add: after_add_def)
qed

lemma reachable_after_delete:
  assumes "reachable s"
    and "map_option fst (bt_delete e s (Some ()) (Some k) old) = Some rc"
  shows "reachable (after_delete e s k old)"
proof -
  from assms(2) obtain out s' where "bt_delete e s (Some ()) (Some k) old = Some (rc, out, s')"
    by auto
  then show ?thesis using reachable.delete[OF assms(1)] by (simp add: after_delete_def)
qed

lemma reachable_four_adds_one_delete: "reachable four_adds_one_delete"
  unfolding four_adds_one_delete_def four_adds_def
proof (intro reachable_after_delete[where rc=0] reachable_after_add[where rc=0])
  show "reachable (empty_tree :: string memory)" unfolding empty_tree_def by (rule reachable.init)
qed (code_simp+)

lemma tree_find_None: "k \<notin> set (keys t) \<Longrightarrow> tree_find k t = None"
  using tree_find_keys[of k t] by (cases "tree_find k t") auto

lemma tree_find_add_new:
  "tree_find k t = None \<Longrightarrow> tree_find k (tree_add (Some a) k v t) = Some (a, v)"
  by (induction t) (auto split: if_splits)

lemma tree_find_add_replace:
  "tree_find k t = Some (a, v) \<Longrightarrow> tree_find k (tree_add new k v2 t) = Some (a, v2)"
  by (induction t) (auto split: if_splits)

lemma keys_add_replace: "tree_find k t \<noteq> None \<Longrightarrow> keys (tree_add new k v t) = keys t"
  by (induction t) (auto split: if_splits)

lemma keys_add_new:
  "k \<notin> set (keys t) \<Longrightarrow> filter (\<lambda>x. x = k) (keys (tree_add (Some a) k v t)) = [k]"
proof (induction t)
  case Leaf
  show ?case by simp
next
  case (Node l b k' v' r)
  have none: "filter (\<lambda>x. x = k) (keys l) = []" "filter (\<lambda>x. x = k) (keys r) = []" "k \<noteq> k'"
    using Node.prems by (auto simp: filter_empty_conv)
  show ?case
  proof (cases "k < k'")
    case True
    then show ?thesis using Node none by simp
  next
    case False
    then show ?thesis using Node none by simp
  qed
qed

lemma tree_find_heap:
  "is_tree h p t \<Longrightarrow> tree_find k t = Some (a, v) \<Longrightarrow>
   \<exists>n. h a = Some n \<and> key n = k \<and> val n = v \<and> a \<in> addrs t"
proof (induction t arbitrary: p)
  case Leaf
  then show ?case by simp
next
  case (Node l b k' v' r)
  from Node.prems(1) obtain n where n: "h b = Some n" "key n = k'" "val n = v'"
    "is_tree h (left n) l" "is_tree h (right n) r"
    by (auto split: option.splits)
  show ?case
  proof (cases "k = k'")
    case True
    then show ?thesis using Node.prems(2) n by auto
  next
    case False
    show ?thesis
    proof (cases "k < k'")
      case True
      then show ?thesis using Node.IH(1)[OF n(4)] Node.prems(2) False by auto
    next
      case F: False
      then show ?thesis using Node.IH(2)[OF n(5)] Node.prems(2) False by auto
    qed
  qed
qed

lemma addrs_add_replace: "tree_find k t \<noteq> None \<Longrightarrow> addrs (tree_add new k v t) = addrs t"
  by (induction t) (auto split: if_splits)

lemma is_tree_NodeI:
  "h a = Some n \<Longrightarrow> key n = k \<Longrightarrow> val n = v \<Longrightarrow> is_tree h (left n) l \<Longrightarrow>
   is_tree h (right n) r \<Longrightarrow> a \<notin> addrs l \<Longrightarrow> a \<notin> addrs r \<Longrightarrow> addrs l \<inter> addrs r = {} \<Longrightarrow>
   is_tree h (Some a) (Node l a k v r)"
  by simp

lemma replace_in_heap:
  "is_tree h p t \<Longrightarrow> tree_find k t = Some (a, v) \<Longrightarrow> h a = Some n \<Longrightarrow>
   is_tree (h(a \<mapsto> n\<lparr>val := v2\<rparr>)) p (tree_add new k v2 t)"
proof (induction t arbitrary: p)
  case Leaf
  then show ?case by simp
next
  case (Node l b k' v' r)
  from Node.prems(1) obtain m where m: "p = Some b" "h b = Some m" "key m = k'" "val m = v'"
    "is_tree h (left m) l" "is_tree h (right m) r"
    "b \<notin> addrs l" "b \<notin> addrs r" "addrs l \<inter> addrs r = {}"
    by (auto split: option.splits)
  show ?case
  proof (cases "k = k'")
    case True
    then have ab: "a = b" "m = n" using Node.prems(2,3) m(2) by auto
    have ta: "tree_add new k v2 (Node l b k' v' r) = Node l b k' v2 r" using True by simp
    let ?h = "h(b \<mapsto> n\<lparr>val := v2\<rparr>)"
    have "is_tree ?h (Some b) (Node l b k' v2 r)"
    proof (rule is_tree_NodeI)
      show "?h b = Some (n\<lparr>val := v2\<rparr>)" by simp
      show "key (n\<lparr>val := v2\<rparr>) = k'" "val (n\<lparr>val := v2\<rparr>) = v2" using m(3) ab by simp_all
      show "is_tree ?h (left (n\<lparr>val := v2\<rparr>)) l" using m(5,7) ab by simp
      show "is_tree ?h (right (n\<lparr>val := v2\<rparr>)) r" using m(6,8) ab by simp
      show "b \<notin> addrs l" "b \<notin> addrs r" "addrs l \<inter> addrs r = {}" by (rule m)+
    qed
    then show ?thesis unfolding ta ab(1) m(1) .
  next
    case False
    let ?h = "h(a \<mapsto> n\<lparr>val := v2\<rparr>)"
    show ?thesis
    proof (cases "k < k'")
      case True
      then have f: "tree_find k l = Some (a, v)" using Node.prems(2) False by simp
      then have al: "a \<in> addrs l" using tree_find_heap[OF m(5)] by blast
      then have ne: "a \<noteq> b" "a \<notin> addrs r" using m(7,9) by auto
      have ad: "addrs (tree_add new k v2 l) = addrs l"
        using f addrs_add_replace[of k l new v2] by simp
      have ta: "tree_add new k v2 (Node l b k' v' r) = Node (tree_add new k v2 l) b k' v' r"
        using True False by simp
      have hb: "?h b = Some m" using ne(1) m(2) by simp
      have L: "is_tree ?h (left m) (tree_add new k v2 l)"
        by (rule Node.IH(1)[OF m(5) f Node.prems(3)])
      have R: "is_tree ?h (right m) r"
        by (subst is_tree_upd_other) (rule ne(2) m(6))+
      show ?thesis unfolding ta m(1)
        by (rule is_tree_NodeI[OF hb m(3) m(4) L R]) (simp_all add: ad m(7,8,9))
    next
      case F: False
      then have f: "tree_find k r = Some (a, v)" using Node.prems(2) False by simp
      then have al: "a \<in> addrs r" using tree_find_heap[OF m(6)] by blast
      then have ne: "a \<noteq> b" "a \<notin> addrs l" using m(8,9) by auto
      have ad: "addrs (tree_add new k v2 r) = addrs r"
        using f addrs_add_replace[of k r new v2] by simp
      have ta: "tree_add new k v2 (Node l b k' v' r) = Node l b k' v' (tree_add new k v2 r)"
        using F False by simp
      have hb: "?h b = Some m" using ne(1) m(2) by simp
      have R: "is_tree ?h (right m) (tree_add new k v2 r)"
        by (rule Node.IH(2)[OF m(6) f Node.prems(3)])
      have L: "is_tree ?h (left m) l"
        by (subst is_tree_upd_other) (rule ne(2) m(5))+
      show ?thesis unfolding ta m(1)
        by (rule is_tree_NodeI[OF hb m(3) m(4) L R]) (simp_all add: ad m(7,8,9))
    qed
  qed
qed

subsection \<open>Operations on a tree at rest\<close>

lemma bt_lookup_still:
  assumes "still s T"
  shows "bt_lookup s (Some ()) (Some k) out =
     Some (tree_find k T \<noteq> None,
           (case tree_find k T of None \<Rightarrow> out
            | Some (a, v) \<Rightarrow> if out \<noteq> None then Some v else None),
           s)"
proof -
  from assms have T: "is_tree (nodes s) (root s) T" and unl: "\<forall>a. \<not> locked (nodes s) a"
    and rw: "rwlock s = Unlocked"
    by (simp_all add: still_def)
  let ?s1 = "s\<lparr>rwlock := ReadLocked 1\<rparr>"
  have "is_tree (nodes ?s1) (root ?s1) T" using T by simp
  from lookup_loop_eq[OF this, of k out] unl
  have "lookup_loop k ?s1 (root ?s1) out =
     Some (tree_find k T \<noteq> None,
           (case tree_find k T of None \<Rightarrow> out
            | Some (a, v) \<Rightarrow> if out \<noteq> None then Some v else None),
           ?s1)"
    by simp
  moreover have "?s1\<lparr>rwlock := Unlocked\<rparr> = s" using rw by simp
  ultimately show ?thesis using rw
    by (simp add: bt_lookup_def pthread_rwlock_rdlock_def pthread_rwlock_unlock_def)
qed

lemma still_domI:
  assumes "is_tree h' p' T'" "dom h = addrs T"
    and "\<forall>x. x \<notin> addrs T \<longrightarrow> x \<notin> addrs T' \<longrightarrow> core h' x = core h x"
    and "\<forall>x\<in>addrs T - addrs T'. h' x = None"
  shows "dom h' = addrs T'"
proof
  show "addrs T' \<subseteq> dom h'" using is_tree_addrs_dom[OF assms(1)] .
  show "dom h' \<subseteq> addrs T'"
  proof
    fix x assume x: "x \<in> dom h'"
    show "x \<in> addrs T'"
    proof (rule ccontr)
      assume n: "x \<notin> addrs T'"
      show False
      proof (cases "x \<in> addrs T")
        case True
        then show False using assms(4) n x by auto
      next
        case False
        then have "core h' x = core h x" using assms(3) n by simp
        moreover have "h x = None" using False assms(2) by auto
        ultimately have "h' x = None" by (cases "h' x") (simp_all add: core_def)
        then show False using x by auto
      qed
    qed
  qed
qed

lemma bt_add_still:
  assumes st: "still s T"
    and fresh: "\<forall>a. new_node e = Some a \<longrightarrow> a \<notin> dom (nodes s)"
  shows "\<exists>s'. bt_add e s (Some ()) (Some k) v = Some (add_rc (new_node e) k T, s') \<and>
              still s' (tree_add (new_node e) k v T) \<and> events s' = events s"
proof -
  from st have T: "is_tree (nodes s) (root s) T" and unl: "\<forall>a. \<not> locked (nodes s) a"
    and rw: "rwlock s = Unlocked" and dm: "dom (nodes s) = addrs T"
    by (simp_all add: still_def)
  from bt_add_total[OF T _ rw fresh, of k v] unl obtain y where
    "bt_add e s (Some ()) (Some k) v = Some y" by auto
  then obtain rc s' where run: "bt_add e s (Some ()) (Some k) v = Some (rc, s')" by (cases y) auto
  note p = bt_add_post[OF T fresh run]
  have "dom (nodes s') = addrs (tree_add (new_node e) k v T)"
  proof (rule still_domI[OF _ dm])
    show "is_tree (nodes s') (root s') (tree_add (new_node e) k v T)" using p by simp
    show "\<forall>x. x \<notin> addrs T \<longrightarrow> x \<notin> addrs (tree_add (new_node e) k v T) \<longrightarrow>
        core (nodes s') x = core (nodes s) x" using p by simp
    show "\<forall>x\<in>addrs T - addrs (tree_add (new_node e) k v T). nodes s' x = None"
      using addrs_tree_add_mono[of T "new_node e" k v] by auto
  qed
  then have "still s' (tree_add (new_node e) k v T)"
    using p unl by (simp add: still_def)
  then show ?thesis using run p by simp
qed

lemma bt_delete_still:
  assumes st: "still s T"
  shows "\<exists>s'. bt_delete e s (Some ()) (Some k) old =
                Some (del_rc (strdup_ok e) k T, del_out (strdup_ok e) k old T, s') \<and>
              is_tree (nodes s') (root s') (tree_del (strdup_ok e) (old \<noteq> None) k T) \<and>
              dom (nodes s') = addrs (tree_del (strdup_ok e) (old \<noteq> None) k T) \<and>
              rwlock s' = Unlocked \<and>
              (del_rc (strdup_ok e) k T \<noteq> - 1 \<longrightarrow> (\<forall>a. \<not> locked (nodes s') a)) \<and>
              events s' = events s @
                (case del_freed (strdup_ok e) k T of None \<Rightarrow> [] | Some a \<Rightarrow> [Free_node a])"
proof -
  from st have T: "is_tree (nodes s) (root s) T" and unl: "\<forall>a. \<not> locked (nodes s) a"
    and rw: "rwlock s = Unlocked" and dm: "dom (nodes s) = addrs T"
    by (simp_all add: still_def)
  from bt_delete_total[OF T _ rw, of e k old] unl obtain y where
    "bt_delete e s (Some ()) (Some k) old = Some y" by auto
  then obtain res out s' where run: "bt_delete e s (Some ()) (Some k) old = Some (res, out, s')"
    by (cases y) auto
  note p = bt_delete_post[OF T run]
  have "dom (nodes s') = addrs (tree_del (strdup_ok e) (old \<noteq> None) k T)"
  proof (rule still_domI[OF _ dm])
    show "is_tree (nodes s') (root s') (tree_del (strdup_ok e) (old \<noteq> None) k T)" using p by simp
    show "\<forall>x. x \<notin> addrs T \<longrightarrow> x \<notin> addrs (tree_del (strdup_ok e) (old \<noteq> None) k T) \<longrightarrow>
        core (nodes s') x = core (nodes s) x" using p by simp
    show "\<forall>x\<in>addrs T - addrs (tree_del (strdup_ok e) (old \<noteq> None) k T). nodes s' x = None"
      using p by simp
  qed
  then show ?thesis using run p unl by simp
qed

subsection \<open>Teardown\<close>

lemma released_values_append [simp]:
  "released_values (xs @ ys) = released_values xs @ released_values ys"
  by (induction xs rule: released_values.induct) auto

lemma freed_nodes_append [simp]: "freed_nodes (xs @ ys) = freed_nodes xs @ freed_nodes ys"
  by (induction xs rule: freed_nodes.induct) auto

lemma released_destroy:
  "released_values (destroy_events fv t) = (if fv then map snd (postorder t) else [])"
  by (induction t) auto

lemma freed_destroy: "freed_nodes (destroy_events fv t) = map fst (postorder t)"
  by (induction t) auto

lemma set_postorder: "set (map fst (postorder t)) = addrs t"
  by (induction t) auto

lemma distinct_postorder: "is_tree h p t \<Longrightarrow> distinct (map fst (postorder t))"
proof (induction t arbitrary: p)
  case Leaf
  show ?case by simp
next
  case (Node l a k v r)
  from Node.prems obtain n where n: "is_tree h (left n) l" "is_tree h (right n) r" "h a = Some n"
    by (auto split: option.splits)
  from Node.prems have d: "a \<notin> addrs l" "a \<notin> addrs r" "addrs l \<inter> addrs r = {}"
    by auto
  show ?case using Node.IH(1)[OF n(1)] Node.IH(2)[OF n(2)] d set_postorder[of l] set_postorder[of r]
    by (simp del: set_map)
qed

lemma node_free_recursive_eq:
  "is_tree (nodes s) p t \<Longrightarrow>
   node_free_recursive s p fv =
     Some (s\<lparr>nodes := (\<lambda>x. if x \<in> addrs t then None else nodes s x),
             events := events s @ destroy_events fv t\<rparr>)"
proof (induction t arbitrary: s p)
  case Leaf
  then show ?case by (subst node_free_recursive.simps) simp
next
  case (Node l a k v r)
  from Node.prems obtain n where n: "p = Some a" "nodes s a = Some n" "key n = k" "val n = v"
    "is_tree (nodes s) (left n) l" "is_tree (nodes s) (right n) r"
    "a \<notin> addrs l" "a \<notin> addrs r" "addrs l \<inter> addrs r = {}"
    by (auto split: option.splits)
  define s1 where "s1 = s\<lparr>nodes := (\<lambda>x. if x \<in> addrs l then None else nodes s x),
             events := events s @ destroy_events fv l\<rparr>"
  have r1: "node_free_recursive s (left n) fv = Some s1"
    unfolding s1_def by (rule Node.IH(1)[OF n(5)])
  have a1: "nodes s1 a = Some n" using n(2,7) by (simp add: s1_def)
  have t1: "is_tree (nodes s1) (right n) r"
  proof (subst is_tree_cong_core[of _ "nodes s1" "nodes s"])
    show "\<forall>x\<in>addrs r. core (nodes s1) x = core (nodes s) x"
      using n(9) by (auto simp: s1_def core_def)
    show "is_tree (nodes s) (right n) r" by (rule n(6))
  qed
  define s2 where "s2 = s1\<lparr>nodes := (\<lambda>x. if x \<in> addrs r then None else nodes s1 x),
             events := events s1 @ destroy_events fv r\<rparr>"
  have r2: "node_free_recursive s1 (right n) fv = Some s2"
    unfolding s2_def by (rule Node.IH(2)[OF t1])
  have a2: "nodes s2 a = Some n" using a1 n(8) by (simp add: s2_def)
  have r3: "node_free s2 (Some a) fv =
     Some (s\<lparr>nodes := (\<lambda>x. if x \<in> addrs (Node l a k v r) then None else nodes s x),
             events := events s @ destroy_events fv (Node l a k v r)\<rparr>)"
    using a2 n(4) by (auto simp: node_free_def s2_def s1_def fun_eq_iff)
  show ?case unfolding n(1)
    by (subst node_free_recursive.simps) (simp add: n(2) r1 a1 r2 r3)
qed

lemma bt_destroy_eq:
  assumes "is_tree (nodes s) (root s) T" "rwlock s = Unlocked"
  shows "bt_destroy s (Some ()) fv =
     Some (s\<lparr>root := None, rwlock := Uninitialised,
             nodes := (\<lambda>x. if x \<in> addrs T then None else nodes s x),
             events := events s @ destroy_events fv T\<rparr>)"
proof -
  let ?s1 = "s\<lparr>rwlock := WriteLocked\<rparr>"
  have "is_tree (nodes ?s1) (root ?s1) T" using assms(1) by simp
  from node_free_recursive_eq[OF this, of fv]
  show ?thesis using assms(2)
    by (simp add: bt_destroy_def pthread_rwlock_wrlock_def pthread_rwlock_unlock_def cong: if_cong)
qed

subsection \<open>Deleting a node that has two children\<close>

lemma min_node_key: "min_node r = Some (sa, sk, sv) \<Longrightarrow> sk \<in> set (keys r)"
  using keys_del_min[of r sa sk sv] by simp

lemma tree_at_keys:
  "tree_at k t = Node l a k' v r \<Longrightarrow> set (keys l) \<union> set (keys r) \<subseteq> set (keys t)"
  by (induction t) (auto split: if_splits)

lemma is_tree_at:
  "is_tree h p t \<Longrightarrow> tree_at k t = Node l a k' v r \<Longrightarrow>
   is_tree h (Some a) (Node l a k' v r) \<and> insert a (addrs l \<union> addrs r) \<subseteq> addrs t"
proof (induction t arbitrary: p)
  case Leaf
  then show ?case by simp
next
  case (Node l1 b k1 v1 r1)
  from Node.prems(1) obtain n where n: "h b = Some n" "is_tree h (left n) l1" "is_tree h (right n) r1"
    by (auto split: option.splits)
  show ?case
  proof (cases "strcmp k k1 = 0")
    case True
    then show ?thesis using Node.prems by auto
  next
    case False
    show ?thesis
    proof (cases "strcmp k k1 < 0")
      case True
      then have "tree_at k l1 = Node l a k' v r" using Node.prems(2) False by simp
      from Node.IH(1)[OF n(2) this] show ?thesis by auto
    next
      case ge: False
      then have "tree_at k r1 = Node l a k' v r" using Node.prems(2) False by simp
      from Node.IH(2)[OF n(3) this] show ?thesis by auto
    qed
  qed
qed

lemma tree_find_min:
  "bst r \<Longrightarrow> min_node r = Some (sa, sk, sv) \<Longrightarrow> tree_find sk r = Some (sa, sv)"
proof (induction r)
  case Leaf
  then show ?case by simp
next
  case (Node l1 b k1 v1 r1)
  show ?case
  proof (cases "l1 = Leaf")
    case True
    then show ?thesis using Node.prems by simp
  next
    case False
    then have m: "min_node l1 = Some (sa, sk, sv)" using Node.prems(2) by simp
    then have "sk < k1" "sk \<noteq> k1" using Node.prems(1) min_node_key[OF m] by auto
    then show ?thesis using Node.IH(1) m Node.prems(1) by simp
  qed
qed

lemma tree_find_successor:
  assumes "bst t" "tree_at k t = Node l a k v r" "min_node r = Some (sa, sk, sv)"
  shows "tree_find sk t = Some (sa, sv)"
  using assms
proof (induction t)
  case Leaf
  then show ?case by simp
next
  case (Node l1 b k1 v1 r1)
  show ?case
  proof (cases "k = k1")
    case True
    then have eq: "l1 = l" "b = a" "v1 = v" "r1 = r" using Node.prems(2) by simp_all
    have "k1 < sk" using Node.prems(1) min_node_key[OF Node.prems(3)] eq by simp
    moreover have "tree_find sk r = Some (sa, sv)"
      using tree_find_min[OF _ Node.prems(3)] Node.prems(1) eq by simp
    ultimately show ?thesis using eq by auto
  next
    case False
    show ?thesis
    proof (cases "k < k1")
      case True
      then have at: "tree_at k l1 = Node l a k v r" using Node.prems(2) False by simp
      have "sk \<in> set (keys l1)" using tree_at_keys[OF at] min_node_key[OF Node.prems(3)] by auto
      then have "sk < k1" "sk \<noteq> k1" using Node.prems(1) by auto
      then show ?thesis using Node.IH(1)[OF _ at Node.prems(3)] Node.prems(1) by simp
    next
      case ge: False
      then have at: "tree_at k r1 = Node l a k v r" using Node.prems(2) False by simp
      have "sk \<in> set (keys r1)" using tree_at_keys[OF at] min_node_key[OF Node.prems(3)] by auto
      then have "k1 < sk" using Node.prems(1) by simp
      then have "\<not> sk < k1" "sk \<noteq> k1" by auto
      then show ?thesis using Node.IH(2)[OF _ at Node.prems(3)] Node.prems(1) by simp
    qed
  qed
qed

lemma tree_find_after_delete:
  assumes "bst t" "tree_at k t = Node l a k v r" "l \<noteq> Leaf" "r \<noteq> Leaf"
    "min_node r = Some (sa, sk, sv)"
  shows "tree_find sk (tree_del True out k t) = Some (a, if out then v else sv)"
  using assms
proof (induction t)
  case Leaf
  then show ?case by simp
next
  case (Node l1 b k1 v1 r1)
  show ?case
  proof (cases "k = k1")
    case True
    then have eq: "l1 = l" "b = a" "v1 = v" "r1 = r" using Node.prems(2) by simp_all
    show ?thesis using True eq Node.prems(3,4,5) by simp
  next
    case False
    show ?thesis
    proof (cases "k < k1")
      case True
      then have at: "tree_at k l1 = Node l a k v r" using Node.prems(2) False by simp
      have "sk \<in> set (keys l1)" using tree_at_keys[OF at] min_node_key[OF Node.prems(5)] by auto
      then have "sk < k1" "sk \<noteq> k1" using Node.prems(1) by auto
      then show ?thesis using Node.IH(1)[OF _ at Node.prems(3,4,5)] Node.prems(1) True False by simp
    next
      case ge: False
      then have at: "tree_at k r1 = Node l a k v r" using Node.prems(2) False by simp
      have "sk \<in> set (keys r1)" using tree_at_keys[OF at] min_node_key[OF Node.prems(5)] by auto
      then have "k1 < sk" using Node.prems(1) by simp
      then have "\<not> sk < k1" "sk \<noteq> k1" by auto
      then show ?thesis using Node.IH(2)[OF _ at Node.prems(3,4,5)] Node.prems(1) ge False by simp
    qed
  qed
qed

lemma keys_delete_successor:
  assumes "tree_at k t = Node l a k v r" "l \<noteq> Leaf" "r \<noteq> Leaf" "min_node r = Some (sa, sk, sv)"
  shows "\<exists>xs ys. keys t = xs @ k # sk # ys \<and> keys (tree_del True out k t) = xs @ sk # ys"
  using assms
proof (induction t)
  case Leaf
  then show ?case by simp
next
  case (Node l1 b k1 v1 r1)
  show ?case
  proof (cases "k = k1")
    case True
    then have eq: "l1 = l" "b = a" "v1 = v" "r1 = r" using Node.prems(1) by simp_all
    have "keys (Node l1 b k1 v1 r1) = keys l @ k # sk # keys (del_min r)"
      using keys_del_min[OF Node.prems(4)] eq True by simp
    moreover have "keys (tree_del True out k (Node l1 b k1 v1 r1)) = keys l @ sk # keys (del_min r)"
      using eq True Node.prems(2,3,4) by simp
    ultimately show ?thesis by blast
  next
    case False
    show ?thesis
    proof (cases "k < k1")
      case True
      then have at: "tree_at k l1 = Node l a k v r" using Node.prems(1) False by simp
      from Node.IH(1)[OF at Node.prems(2,3,4)] obtain xs ys where
        "keys l1 = xs @ k # sk # ys" "keys (tree_del True out k l1) = xs @ sk # ys" by blast
      then have "keys (Node l1 b k1 v1 r1) = xs @ k # sk # (ys @ k1 # keys r1)"
        "keys (tree_del True out k (Node l1 b k1 v1 r1)) = xs @ sk # (ys @ k1 # keys r1)"
        using True False by simp_all
      then show ?thesis by blast
    next
      case ge: False
      then have at: "tree_at k r1 = Node l a k v r" using Node.prems(1) False by simp
      from Node.IH(2)[OF at Node.prems(2,3,4)] obtain xs ys where
        "keys r1 = xs @ k # sk # ys" "keys (tree_del True out k r1) = xs @ sk # ys" by blast
      then have "keys (Node l1 b k1 v1 r1) = (keys l1 @ k1 # xs) @ k # sk # ys"
        "keys (tree_del True out k (Node l1 b k1 v1 r1)) = (keys l1 @ k1 # xs) @ sk # ys"
        using ge False by simp_all
      then show ?thesis by blast
    qed
  qed
qed

lemma addrs_delete_successor:
  assumes "is_tree h p t" "tree_at k t = Node l a k v r" "l \<noteq> Leaf" "r \<noteq> Leaf"
    "min_node r = Some (sa, sk, sv)"
  shows "addrs (tree_del True out k t) = addrs t - {sa}"
  using assms
proof (induction t arbitrary: p)
  case Leaf
  then show ?case by simp
next
  case (Node l1 b k1 v1 r1)
  from Node.prems(1) obtain n where n: "h b = Some n" "is_tree h (left n) l1" "is_tree h (right n) r1"
    and d: "b \<notin> addrs l1" "b \<notin> addrs r1" "addrs l1 \<inter> addrs r1 = {}"
    by (auto split: option.splits)
  show ?case
  proof (cases "k = k1")
    case True
    then have eq: "l1 = l" "b = a" "v1 = v" "r1 = r" using Node.prems(2) by simp_all
    have "addrs (del_min r) = addrs r - {sa}"
      using addrs_del_min_eq[OF _ Node.prems(5)] n(3) eq by simp
    moreover have "sa \<in> addrs r" using min_node_addrs[OF Node.prems(5)] .
    ultimately show ?thesis using True eq Node.prems(3,4,5) d by auto
  next
    case False
    show ?thesis
    proof (cases "k < k1")
      case True
      then have at: "tree_at k l1 = Node l a k v r" using Node.prems(2) False by simp
      have "sa \<in> addrs l1" using is_tree_at[OF n(2) at] min_node_addrs[OF Node.prems(5)] by auto
      then show ?thesis using Node.IH(1)[OF n(2) at Node.prems(3,4,5)] True False d by auto
    next
      case ge: False
      then have at: "tree_at k r1 = Node l a k v r" using Node.prems(2) False by simp
      have "sa \<in> addrs r1" using is_tree_at[OF n(3) at] min_node_addrs[OF Node.prems(5)] by auto
      then show ?thesis using Node.IH(2)[OF n(3) at Node.prems(3,4,5)] ge False d by auto
    qed
  qed
qed

lemma delete_two_children:
  assumes st: "still s T" and b: "bst T"
    and at: "tree_at k T = Node l a k v r" and l: "l \<noteq> Leaf" and r: "r \<noteq> Leaf"
    and m: "min_node r = Some (sa, sk, sv)" and ok: "strdup_ok e"
  shows "\<exists>s' n n' ns.
     bt_delete e s (Some ()) (Some k) old = Some (0, (if old = None then None else Some sv), s') \<and>
     still s' (tree_del True (old \<noteq> None) k T) \<and>
     nodes s a = Some n \<and> key n = k \<and> val n = v \<and>
     nodes s sa = Some ns \<and> key ns = sk \<and> val ns = sv \<and> sa \<noteq> a \<and>
     nodes s' a = Some n' \<and> key n' = sk \<and> val n' = (if old = None then sv else v) \<and>
     dom (nodes s') = dom (nodes s) - {sa} \<and>
     events s' = events s @ [Free_node sa]"
proof -
  from st have T: "is_tree (nodes s) (root s) T" and dm: "dom (nodes s) = addrs T"
    by (simp_all add: still_def)
  let ?T' = "tree_del True (old \<noteq> None) k T"
  have rc: "del_rc (strdup_ok e) k T = 0" using del_rc_at[of "strdup_ok e" k T] at l r ok by simp
  have out: "del_out (strdup_ok e) k old T = (if old = None then None else Some sv)"
    using del_out_at[of "strdup_ok e" k old T] at l r ok m by simp
  have fr: "del_freed (strdup_ok e) k T = Some sa"
    using del_freed_at[of "strdup_ok e" k T] at l r ok m by simp
  from bt_delete_still[OF st, of e k old] obtain s' where
    run: "bt_delete e s (Some ()) (Some k) old = Some (0, (if old = None then None else Some sv), s')"
    and T': "is_tree (nodes s') (root s') ?T'"
    and dm': "dom (nodes s') = addrs ?T'"
    and rw': "rwlock s' = Unlocked"
    and ul': "\<forall>a. \<not> locked (nodes s') a"
    and ev: "events s' = events s @ [Free_node sa]"
    unfolding rc out fr using ok by auto
  have st': "still s' ?T'" using T' dm' rw' ul' by (simp add: still_def)
  from is_tree_at[OF T at] have sub: "is_tree (nodes s) (Some a) (Node l a k v r)" by simp
  then obtain n where n: "nodes s a = Some n" "key n = k" "val n = v" "is_tree (nodes s) (right n) r"
    and ar: "a \<notin> addrs r"
    by (auto split: option.splits)
  from min_node_heap[OF n(4) m] obtain ns where ns: "nodes s sa = Some ns" "key ns = sk" "val ns = sv"
    by blast
  have neq: "sa \<noteq> a" using min_node_addrs[OF m] ar by auto
  from tree_find_heap[OF T' tree_find_after_delete[OF b at l r m, of "old \<noteq> None"]]
  obtain n' where n': "nodes s' a = Some n'" "key n' = sk" "val n' = (if old \<noteq> None then v else sv)"
    by blast
  have "dom (nodes s') = dom (nodes s) - {sa}"
    using dm' dm addrs_delete_successor[OF T at l r m, of "old \<noteq> None"] by simp
  then show ?thesis using run st' n(1-3) ns neq n' ev by auto
qed

subsection \<open>Calls on a tree whose root is locked\<close>

lemma blocked_at_root:
  assumes "root s = Some c" "locked (nodes s) c"
  shows "bt_lookup s (Some ()) (Some k) out = None"
    and "bt_add e s (Some ()) (Some k) v = None"
    and "bt_delete e s (Some ()) (Some k) old = None"
proof -
  have l: "pthread_mutex_lock (s\<lparr>rwlock := w\<rparr>) c = None" for w
    using assms(2) by (auto simp: pthread_mutex_lock_def locked_def split: option.splits)
  show "bt_lookup s (Some ()) (Some k) out = None"
    using assms(1) l
    by (auto simp: bt_lookup_def pthread_rwlock_rdlock_def lookup_loop.simps[of k _ "Some c"]
        split: rwlock_t.splits)
  show "bt_add e s (Some ()) (Some k) v = None"
    using assms(1) l by (auto simp: bt_add_unfold pthread_rwlock_wrlock_def)
  show "bt_delete e s (Some ()) (Some k) old = None"
    using assms(1) l by (auto simp: bt_delete_unfold pthread_rwlock_wrlock_def)
qed

lemma absent_deleted_obs:
  "map_option (\<lambda>(rc, out, s). (rc, out, rwlock s, root s, locked (nodes s) 1, locked (nodes s) 2))
     (bt_delete (alloc_at 0) two_adds (Some ()) (Some ''a'') None)
   = Some (- 1, None, Unlocked, Some 1, True, False)"
  unfolding two_adds_def by code_simp

section \<open>The claims\<close>

text \<open>
  C1. The run of demo.c: after the five inserts the lookup of "c" finds "charlie";
  the delete of "b", called with an output pointer, returns 0 (deleted); the lookup
  of "b" that follows finds nothing, and the in-order keys of the tree are
  a, c, d, e. The value that the delete stores through the output pointer is
  "charlie", the value of the successor, and not "bravo", the value of the deleted
  key: "b" has two children, and the second case of \<^verbatim>\<open>bt_delete\<close> overwrites the
  saved value.
\<close>

theorem C1_demo_delete_hands_out_successor_value:
  "map_option
     (\<lambda>(found_c, val_c, rc, old, found_b, s).
        (found_c, val_c, rc, old, found_b, is_tree (nodes s) (root s) demo_tree, keys demo_tree))
     demo_run
   = Some (True, Some (Some ''charlie''), 0, Some (Some ''charlie''), False, True,
           [''a'', ''c'', ''d'', ''e''])"
  unfolding demo_run_def demo_inserts_def demo_tree_def by code_simp

text \<open>
  C6. An operation that is called with a null tree pointer or a null key returns at
  once: \<^verbatim>\<open>bt_init\<close>, \<^verbatim>\<open>bt_add\<close> and \<^verbatim>\<open>bt_delete\<close> return \<^verbatim>\<open>EINVAL\<close>, \<^verbatim>\<open>bt_lookup\<close> returns
  false. The memory is the one before the call, whatever the state of its locks, so
  no lock is taken and nothing is written, the caller's output cell included.
\<close>

theorem C6_null_arguments_rejected:
  "bt_init s None init_rc = (EINVAL, s) \<and>
   (t = None \<or> k = None \<longrightarrow>
      bt_add e s t k v = Some (EINVAL, s) \<and>
      bt_delete e s t k out = Some (EINVAL, out, s) \<and>
      bt_lookup s t k out = Some (False, out, s))"
  by (simp add: bt_init_def bt_add_def bt_delete_def bt_lookup_def)

theorem C6_null_arguments_rejected_witness:
  "bt_init (empty_tree :: string memory) None 0 = (EINVAL, empty_tree) \<and>
   bt_add (alloc_at 1) (empty_tree :: string memory) (Some ()) None ''v'' = Some (EINVAL, empty_tree) \<and>
   bt_delete (alloc_at 1) (empty_tree :: string memory) None (Some ''k'') (Some ''x'')
     = Some (EINVAL, Some ''x'', empty_tree) \<and>
   bt_lookup (empty_tree :: string memory) None (Some ''k'') None = Some (False, None, empty_tree)"
  using C6_null_arguments_rejected [of "empty_tree :: string memory" 0 "Some ()" None "alloc_at 1" "''v''" "None"]
        C6_null_arguments_rejected [of "empty_tree :: string memory" 0 None "Some ''k''" "alloc_at 1" "''v''" "Some ''x''"]
        C6_null_arguments_rejected [of "empty_tree :: string memory" 0 None "Some ''k''" "alloc_at 1" "''v''" "None"]
  by simp

text \<open>
  C5. A \<^verbatim>\<open>bt_add\<close> or \<^verbatim>\<open>bt_delete\<close> that returns \<^verbatim>\<open>ENOMEM\<close> leaves the memory exactly
  as it was before the call: the root, every node with its key, value, links and
  mutex, the tree-wide lock and the record of frees. So nothing was written to the
  tree before the failure was found, and every lock that the call took is released.
  The memory is assumed to hold a tree, and \<^verbatim>\<open>calloc\<close> not to return a live address.
\<close>

theorem C5_out_of_memory_leaves_memory_unchanged:
  assumes "is_tree (nodes s) (root s) T"
    and "\<forall>a. calloc_ret e = Some a \<longrightarrow> a \<notin> dom (nodes s)"
  shows "(bt_add e s t k v = Some (ENOMEM, s') \<longrightarrow> s' = s) \<and>
         (bt_delete e s t k old = Some (ENOMEM, out, s') \<longrightarrow> s' = s)"
proof (cases "t = None \<or> k = None")
  case True
  then show ?thesis by (auto simp: bt_add_def bt_delete_def EINVAL_def ENOMEM_def)
next
  case False
  then obtain k0 where tk: "t = Some ()" "k = Some k0" by auto
  show ?thesis unfolding tk
    using bt_add_ENOMEM_same[OF assms(1) new_node_fresh[OF assms(2)]]
      bt_delete_ENOMEM_same[OF assms(1)] by blast
qed

theorem C5_out_of_memory_witness:
  "is_tree (nodes three_nodes) (root three_nodes) three_tree \<and>
   calloc_ret out_of_memory = None \<and>
   bt_add out_of_memory three_nodes (Some ()) (Some ''x'') ''xray'' = Some (ENOMEM, three_nodes) \<and>
   bt_delete out_of_memory three_nodes (Some ()) (Some ''b'') None = Some (ENOMEM, None, three_nodes)"
proof -
  have f: "\<forall>a. calloc_ret out_of_memory = Some a \<longrightarrow> a \<notin> dom (nodes three_nodes)"
    by (simp add: out_of_memory_def)
  have "map_option fst (bt_add out_of_memory three_nodes (Some ()) (Some ''x'') ''xray'') = Some ENOMEM"
    unfolding three_nodes_def by code_simp
  then obtain s1 where a: "bt_add out_of_memory three_nodes (Some ()) (Some ''x'') ''xray'' = Some (ENOMEM, s1)"
    by auto
  have "map_option (\<lambda>(rc, out, s). (rc, out))
     (bt_delete out_of_memory three_nodes (Some ()) (Some ''b'') None) = Some (ENOMEM, None)"
    unfolding three_nodes_def by code_simp
  then obtain s2 where d: "bt_delete out_of_memory three_nodes (Some ()) (Some ''b'') None = Some (ENOMEM, None, s2)"
    by auto
  from C5_out_of_memory_leaves_memory_unchanged[OF three_nodes_tree f,
      where t="Some ()" and k="Some ''x''" and v="''xray''" and s'=s1]
    C5_out_of_memory_leaves_memory_unchanged[OF three_nodes_tree f,
      where t="Some ()" and k="Some ''b''" and old=None and out=None and s'=s2]
    a d three_nodes_tree
  show ?thesis by (simp add: out_of_memory_def)
qed

text \<open>
  C9. When \<^verbatim>\<open>bt_delete\<close>, on a tree at rest, finds the key at a node with two children
  and \<^verbatim>\<open>strdup\<close> of the successor's key fails, it returns \<^verbatim>\<open>ENOMEM\<close> and leaves the memory
  as it was, but the caller's output cell holds the value of the found node: it was
  written before the failure.
\<close>

theorem C9_output_overwritten_before_out_of_memory:
  assumes "still s T"
    and "tree_at k T = Node l a k v r" and "l \<noteq> Leaf" and "r \<noteq> Leaf"
    and "\<not> strdup_ok e"
  shows "bt_delete e s (Some ()) (Some k) (Some x) = Some (ENOMEM, Some v, s)"
proof -
  from assms(1) have T: "is_tree (nodes s) (root s) T" and unl: "\<forall>x\<in>addrs T. \<not> locked (nodes s) x"
    and rw: "rwlock s = Unlocked"
    by (simp_all add: still_def)
  from bt_delete_total[OF T unl rw, of e k "Some x"] obtain y where
    "bt_delete e s (Some ()) (Some k) (Some x) = Some y" ..
  then obtain res out s' where
    run: "bt_delete e s (Some ()) (Some k) (Some x) = Some (res, out, s')"
    by (cases y) auto
  note p = bt_delete_post[OF T run]
  have "res = ENOMEM" "out = Some v"
    using p assms(2-5) del_rc_at[of "strdup_ok e" k T] del_out_at[of "strdup_ok e" k "Some x" T]
    by simp_all
  then show ?thesis using run bt_delete_ENOMEM_same[OF T, of e k "Some x" out s'] by simp
qed

theorem C9_output_overwritten_witness:
  "still three_nodes three_tree \<and>
   tree_at ''b'' three_tree =
     Node (Node Leaf 2 ''a'' ''alpha'' Leaf) 1 ''b'' ''bravo'' (Node Leaf 3 ''c'' ''charlie'' Leaf) \<and>
   \<not> strdup_ok out_of_memory \<and>
   bt_delete out_of_memory three_nodes (Some ()) (Some ''b'') (Some ''old'')
     = Some (ENOMEM, Some ''bravo'', three_nodes)"
proof -
  have t: "tree_at ''b'' three_tree =
     Node (Node Leaf 2 ''a'' ''alpha'' Leaf) 1 ''b'' ''bravo'' (Node Leaf 3 ''c'' ''charlie'' Leaf)"
    by (simp add: three_tree_def)
  have o: "\<not> strdup_ok out_of_memory" by (simp add: out_of_memory_def)
  from C9_output_overwritten_before_out_of_memory[OF three_nodes_still t _ _ o, of "''old''"]
  show ?thesis using three_nodes_still t o by simp
qed

text \<open>
  C3. Every memory that a sequence of \<^verbatim>\<open>bt_add\<close> and \<^verbatim>\<open>bt_delete\<close> calls reaches from an
  empty tree holds a binary search tree: the nodes linked from the root form a tree
  in which every key of a left subtree is less, and every key of a right subtree
  greater, than the key of the node, under \<^verbatim>\<open>strcmp\<close>; equivalently the in-order keys are
  strictly increasing.
\<close>

theorem C3_every_reachable_memory_holds_a_search_tree:
  "reachable s \<Longrightarrow> \<exists>T. is_tree (nodes s) (root s) T \<and> bst T \<and> sorted_wrt (\<lambda>x y. strcmp x y < 0) (keys T)"
proof (induction rule: reachable.induct)
  case (init s0)
  have "is_tree (nodes (snd (bt_init s0 (Some ()) 0))) (root (snd (bt_init s0 (Some ()) 0))) Leaf"
    by (simp add: bt_init_def)
  then show ?case by (intro exI[of _ Leaf]) simp
next
  case (add s e t k v rc s')
  then obtain T where T: "is_tree (nodes s) (root s) T" "bst T" by blast
  show ?case
  proof (cases "t = None \<or> k = None")
    case True
    then have "s' = s" using add.hyps(3) by (auto simp: bt_add_def)
    then show ?thesis using T bst_iff_sorted_strcmp by auto
  next
    case False
    then obtain k0 where tk: "t = Some ()" "k = Some k0" by auto
    note p = bt_add_post[OF T(1) new_node_fresh[OF add.hyps(2)] add.hyps(3)[unfolded tk]]
    show ?thesis using p bst_tree_add[OF T(2)] bst_iff_sorted_strcmp by blast
  qed
next
  case (delete s e t k old res out s')
  then obtain T where T: "is_tree (nodes s) (root s) T" "bst T" by blast
  show ?case
  proof (cases "t = None \<or> k = None")
    case True
    then have "s' = s" using delete.hyps(2) by (auto simp: bt_delete_def)
    then show ?thesis using T bst_iff_sorted_strcmp by auto
  next
    case False
    then obtain k0 where tk: "t = Some ()" "k = Some k0" by auto
    note p = bt_delete_post[OF T(1) delete.hyps(2)[unfolded tk]]
    show ?thesis using p bst_tree_del[OF T(2)] bst_iff_sorted_strcmp by blast
  qed
qed

theorem C3_search_tree_witness:
  "reachable four_adds_one_delete \<and>
   (\<exists>T. is_tree (nodes four_adds_one_delete) (root four_adds_one_delete) T \<and> bst T \<and>
        sorted_wrt (\<lambda>x y. strcmp x y < 0) (keys T))"
  using C3_every_reachable_memory_holds_a_search_tree[OF reachable_four_adds_one_delete]
    reachable_four_adds_one_delete by simp

text \<open>
  C4. On a tree at rest that does not contain \<open>k\<close>, a \<^verbatim>\<open>bt_add\<close> of \<open>(k, v1)\<close> whose allocation
  succeeds returns 0 (inserted) and makes the node at the new address \<open>a\<close>; a second
  \<^verbatim>\<open>bt_add\<close> of \<open>(k, v2)\<close> returns 1 (replaced), whatever its allocator would do, and the
  memory after it is the memory before it with the value of the node at \<open>a\<close> set to
  \<open>v2\<close> and nothing else changed: the node and its key are the ones of the first
  insert. The tree then has exactly one key \<open>k\<close>, and \<^verbatim>\<open>bt_lookup\<close> of \<open>k\<close> finds \<open>v2\<close>.
\<close>

theorem C4_insert_then_replace:
  assumes st: "still s T" and nk: "k \<notin> set (keys T)"
    and e1: "new_node e1 = Some a" "a \<notin> dom (nodes s)"
    and e2: "\<forall>b. calloc_ret e2 = Some b \<longrightarrow> b \<noteq> a \<and> b \<notin> dom (nodes s)"
  shows "\<exists>s1 n1 s2 T2.
     bt_add e1 s (Some ()) (Some k) v1 = Some (0, s1) \<and>
     nodes s1 a = Some n1 \<and> key n1 = k \<and> val n1 = v1 \<and>
     bt_add e2 s1 (Some ()) (Some k) v2 = Some (1, s2) \<and>
     s2 = s1\<lparr>nodes := (nodes s1)(a \<mapsto> n1\<lparr>val := v2\<rparr>)\<rparr> \<and>
     still s2 T2 \<and> filter (\<lambda>x. x = k) (keys T2) = [k] \<and>
     bt_lookup s2 (Some ()) (Some k) (Some x) = Some (True, Some v2, s2)"
proof -
  let ?T1 = "tree_add (Some a) k v1 T"
  let ?T2 = "tree_add (new_node e2) k v2 ?T1"
  have f0: "tree_find k T = None" using tree_find_None[OF nk] .
  have f1: "tree_find k ?T1 = Some (a, v1)" using tree_find_add_new[OF f0] .
  have f2: "tree_find k ?T2 = Some (a, v2)" using tree_find_add_replace[OF f1] .
  have fresh1: "\<forall>b. new_node e1 = Some b \<longrightarrow> b \<notin> dom (nodes s)" using e1 by simp
  from bt_add_still[OF st fresh1, of k v1] obtain s1 where
    s1: "bt_add e1 s (Some ()) (Some k) v1 = Some (0, s1)" "still s1 ?T1" "events s1 = events s"
    using f0 e1(1) by (auto simp: add_rc_find)
  from s1(2) have t1: "is_tree (nodes s1) (root s1) ?T1" and d1: "dom (nodes s1) = addrs ?T1"
    and u1: "\<forall>a. \<not> locked (nodes s1) a" and rw1: "rwlock s1 = Unlocked"
    by (simp_all add: still_def)
  from tree_find_heap[OF t1 f1] obtain n1 where n1: "nodes s1 a = Some n1" "key n1 = k" "val n1 = v1"
    by blast
  have "dom (nodes s) = addrs T" using st by (simp add: still_def)
  then have "dom (nodes s1) \<subseteq> insert a (dom (nodes s))"
    using d1 addrs_tree_add[of "Some a" k v1 T] by auto
  then have fresh2: "\<forall>b. new_node e2 = Some b \<longrightarrow> b \<notin> dom (nodes s1)"
    using e2 by (auto simp: new_node_def)
  from bt_add_still[OF s1(2) fresh2, of k v2] obtain s2 where
    s2: "bt_add e2 s1 (Some ()) (Some k) v2 = Some (1, s2)" "still s2 ?T2" "events s2 = events s1"
    using f1 by (auto simp: add_rc_find)
  from s2(2) have t2: "is_tree (nodes s2) (root s2) ?T2" and d2: "dom (nodes s2) = addrs ?T2"
    and u2: "\<forall>a. \<not> locked (nodes s2) a" and rw2: "rwlock s2 = Unlocked"
    by (simp_all add: still_def)
  define s1' where "s1' = s1\<lparr>nodes := (nodes s1)(a \<mapsto> n1\<lparr>val := v2\<rparr>)\<rparr>"
  have t1': "is_tree (nodes s1') (root s1') ?T2"
    using replace_in_heap[OF t1 f1 n1(1), of v2 "new_node e2"] by (simp add: s1'_def)
  have ad: "addrs ?T2 = addrs ?T1" using addrs_add_replace[of k ?T1 "new_node e2" v2] f1 by simp
  have eq: "s2 = s1'"
  proof (rule memory_eqI[OF t1' t2])
    show "\<forall>x. x \<notin> addrs ?T2 \<longrightarrow> core (nodes s2) x = core (nodes s1') x"
    proof (intro allI impI)
      fix x assume x: "x \<notin> addrs ?T2"
      then have "nodes s2 x = None" using d2 by auto
      moreover have "nodes s1' x = None" using x ad d1 n1(1) by (auto simp: s1'_def)
      ultimately show "core (nodes s2) x = core (nodes s1') x" by (simp add: core_def)
    qed
    have "\<not> mtx n1" using u1[rule_format, of a] n1(1) by (simp add: locked_def)
    then show "\<forall>x. locked (nodes s2) x = locked (nodes s1') x"
      using u2 u1 by (simp add: s1'_def)
    show "rwlock s2 = rwlock s1'" using rw1 rw2 by (simp add: s1'_def)
    show "events s2 = events s1'" using s2(3) by (simp add: s1'_def)
  qed
  have k2: "filter (\<lambda>x. x = k) (keys ?T2) = [k]"
    using keys_add_replace[of k ?T1 "new_node e2" v2] f1 keys_add_new[OF nk, of a v1] by simp
  have lk: "bt_lookup s2 (Some ()) (Some k) (Some x) = Some (True, Some v2, s2)"
    using bt_lookup_still[OF s2(2), of k "Some x"] f2 by simp
  show ?thesis
    using s1(1) n1 s2(1) eq s2(2) k2 lk unfolding s1'_def by blast
qed

theorem C4_insert_then_replace_witness:
  "still three_nodes three_tree \<and> ''x'' \<notin> set (keys three_tree) \<and>
   new_node (alloc_at 7) = Some 7 \<and> 7 \<notin> dom (nodes three_nodes) \<and>
   calloc_ret out_of_memory = None \<and>
   (\<exists>s1 n1 s2 T2.
     bt_add (alloc_at 7) three_nodes (Some ()) (Some ''x'') ''first'' = Some (0, s1) \<and>
     nodes s1 7 = Some n1 \<and> key n1 = ''x'' \<and> val n1 = ''first'' \<and>
     bt_add out_of_memory s1 (Some ()) (Some ''x'') ''second'' = Some (1, s2) \<and>
     s2 = s1\<lparr>nodes := (nodes s1)(7 \<mapsto> n1\<lparr>val := ''second''\<rparr>)\<rparr> \<and>
     still s2 T2 \<and> filter (\<lambda>x. x = ''x'') (keys T2) = [''x''] \<and>
     bt_lookup s2 (Some ()) (Some ''x'') (Some ''old'') = Some (True, Some ''second'', s2))"
proof -
  have a: "''x'' \<notin> set (keys three_tree)" by (simp add: three_tree_def)
  have b: "new_node (alloc_at 7) = Some 7" by (simp add: new_node_def alloc_at_def)
  have c: "7 \<notin> dom (nodes three_nodes)" by (simp add: three_nodes_def)
  have d: "\<forall>b. calloc_ret out_of_memory = Some b \<longrightarrow> b \<noteq> 7 \<and> b \<notin> dom (nodes three_nodes)"
    by (simp add: out_of_memory_def)
  from C4_insert_then_replace[OF three_nodes_still a b c d, of "''first''" "''second''" "''old''"]
  show ?thesis using three_nodes_still a b c by (simp add: out_of_memory_def)
qed

text \<open>
  C7. \<^verbatim>\<open>bt_destroy\<close> on a tree at rest returns, with the root cleared and no node left.
  What it released is the post-order of the tree: every node is freed once, after
  the nodes of both its subtrees, and these are all the nodes of the memory. With a
  callback, it is called on the value of each node once, just before the node is
  freed; with no callback, no value is released. The tree has any number of nodes.
\<close>

theorem C7_destroy_releases_every_node_once_in_post_order:
  assumes "still s T"
  shows "\<exists>s'. bt_destroy s (Some ()) free_value = Some s' \<and>
           root s' = None \<and> nodes s' = Map.empty \<and>
           events s' = events s @ destroy_events free_value T \<and>
           released_values (destroy_events free_value T) =
             (if free_value then map snd (postorder T) else []) \<and>
           freed_nodes (destroy_events free_value T) = map fst (postorder T) \<and>
           distinct (map fst (postorder T)) \<and>
           set (map fst (postorder T)) = dom (nodes s)"
proof -
  from assms have T: "is_tree (nodes s) (root s) T" and rw: "rwlock s = Unlocked"
    and dm: "dom (nodes s) = addrs T"
    by (simp_all add: still_def)
  have "(\<lambda>x. if x \<in> addrs T then None else nodes s x) = Map.empty"
    using dm by (auto simp: fun_eq_iff)
  then show ?thesis
    using bt_destroy_eq[OF T rw, of free_value] released_destroy[of free_value T] freed_destroy[of free_value T]
      distinct_postorder[OF T] set_postorder[of T] dm
    by simp
qed

theorem C7_destroy_witness:
  "still three_nodes three_tree \<and>
   (\<exists>s'. bt_destroy three_nodes (Some ()) True = Some s' \<and> root s' = None \<and> nodes s' = Map.empty \<and>
      events s' = [Free_value ''alpha'', Free_node 2, Free_value ''charlie'', Free_node 3,
                   Free_value ''bravo'', Free_node 1] \<and>
      released_values (events s') = [''alpha'', ''charlie'', ''bravo''] \<and>
      freed_nodes (events s') = [2, 3, 1])"
proof -
  from C7_destroy_releases_every_node_once_in_post_order[OF three_nodes_still, of True]
  obtain s' where s': "bt_destroy three_nodes (Some ()) True = Some s'" "root s' = None"
    "nodes s' = Map.empty" "events s' = events three_nodes @ destroy_events True three_tree"
    by blast
  have "events s' = [Free_value ''alpha'', Free_node 2, Free_value ''charlie'', Free_node 3,
                   Free_value ''bravo'', Free_node 1]"
    using s'(4) by (simp add: three_nodes_def three_tree_def)
  then show ?thesis using s' three_nodes_still by simp
qed

text \<open>
  C2. \<^verbatim>\<open>bt_delete\<close> of a key \<open>k\<close> whose node \<open>a\<close> has two children, in a search tree at
  rest, when the copy of the successor's key can be allocated. \<open>sa\<close> is the leftmost
  node of the right subtree of \<open>a\<close>, with the key \<open>sk\<close> and the value \<open>sv\<close>; \<open>sk\<close> is the
  key that follows \<open>k\<close> in the in-order sequence. The call returns 0. The node \<open>a\<close>
  stays and now holds the key \<open>sk\<close>; the node \<open>sa\<close>, which is not \<open>a\<close>, is the one node that
  leaves the memory, and the one node that is freed. With an output parameter the
  caller receives \<open>sv\<close> and the node \<open>a\<close> keeps its value; with none the node \<open>a\<close> takes
  the value \<open>sv\<close>. The memory is again a search tree at rest, and its in-order keys are
  those before the call without \<open>k\<close>.
\<close>

theorem C2_delete_of_a_node_with_two_children:
  assumes "still s T" and "bst T"
    and "tree_at k T = Node l a k v r" and "l \<noteq> Leaf" and "r \<noteq> Leaf"
    and "min_node r = Some (sa, sk, sv)" and "strdup_ok e"
  shows "\<exists>s' T' n n' ns xs ys.
     bt_delete e s (Some ()) (Some k) old = Some (0, (if old = None then None else Some sv), s') \<and>
     nodes s a = Some n \<and> key n = k \<and> val n = v \<and>
     nodes s sa = Some ns \<and> key ns = sk \<and> val ns = sv \<and> sa \<noteq> a \<and>
     keys T = xs @ k # sk # ys \<and>
     nodes s' a = Some n' \<and> key n' = sk \<and> val n' = (if old = None then sv else v) \<and>
     dom (nodes s') = dom (nodes s) - {sa} \<and>
     events s' = events s @ [Free_node sa] \<and>
     still s' T' \<and> bst T' \<and>
     keys T' = xs @ sk # ys \<and>
     keys T' = filter (\<lambda>x. x \<noteq> k) (keys T)"
proof -
  let ?T' = "tree_del True (old \<noteq> None) k T"
  from delete_two_children[OF assms, of old] obtain s' n n' ns where
    a: "bt_delete e s (Some ()) (Some k) old = Some (0, (if old = None then None else Some sv), s')"
     "still s' ?T'"
     "nodes s a = Some n" "key n = k" "val n = v"
     "nodes s sa = Some ns" "key ns = sk" "val ns = sv" "sa \<noteq> a"
     "nodes s' a = Some n'" "key n' = sk" "val n' = (if old = None then sv else v)"
     "dom (nodes s') = dom (nodes s) - {sa}"
     "events s' = events s @ [Free_node sa]"
    by blast
  from keys_delete_successor[OF assms(3,4,5,6), of "old \<noteq> None"] obtain xs ys where
    k: "keys T = xs @ k # sk # ys" "keys ?T' = xs @ sk # ys" by blast
  have b': "bst ?T'" using bst_tree_del[OF assms(2)] .
  have f: "keys ?T' = filter (\<lambda>x. x \<noteq> k) (keys T)" using keys_tree_del[OF assms(2)] .
  show ?thesis
    apply (rule exI[of _ s'], rule exI[of _ ?T'], rule exI[of _ n], rule exI[of _ n'],
        rule exI[of _ ns], rule exI[of _ xs], rule exI[of _ ys])
    using a k b' f by simp
qed

theorem C2_delete_two_children_witness:
  "still three_nodes three_tree \<and> bst three_tree \<and>
   tree_at ''b'' three_tree = three_tree \<and>
   min_node (Node Leaf 3 ''c'' ''charlie'' Leaf) = Some (3, ''c'', ''charlie'') \<and>
   strdup_ok (alloc_at 9) \<and>
   (\<exists>s' T' n'.
      bt_delete (alloc_at 9) three_nodes (Some ()) (Some ''b'') None = Some (0, None, s') \<and>
      nodes s' 1 = Some n' \<and> key n' = ''c'' \<and> val n' = ''charlie'' \<and>
      dom (nodes s') = dom (nodes three_nodes) - {3} \<and>
      events s' = events three_nodes @ [Free_node 3] \<and>
      still s' T' \<and> bst T' \<and> keys T' = [''a'', ''c''])"
proof -
  have h: "still three_nodes three_tree" "bst three_tree"
    "tree_at ''b'' three_tree = Node (Node Leaf 2 ''a'' ''alpha'' Leaf) 1 ''b'' ''bravo'' (Node Leaf 3 ''c'' ''charlie'' Leaf)"
    "Node Leaf 2 ''a'' ''alpha'' Leaf \<noteq> Leaf" "Node Leaf 3 ''c'' ''charlie'' Leaf \<noteq> Leaf"
    "min_node (Node Leaf 3 ''c'' ''charlie'' Leaf) = Some (3, ''c'', ''charlie'')"
    "strdup_ok (alloc_at 9)"
    using three_nodes_still by (simp_all add: three_tree_def alloc_at_def)
  from C2_delete_of_a_node_with_two_children[OF h, of None]
  obtain s' T' n n' ns xs ys where
    a: "bt_delete (alloc_at 9) three_nodes (Some ()) (Some ''b'') None = Some (0, None, s')"
     "nodes s' 1 = Some n'" "key n' = ''c''" "val n' = ''charlie''"
     "dom (nodes s') = dom (nodes three_nodes) - {3}"
     "events s' = events three_nodes @ [Free_node 3]"
     "still s' T'" "bst T'" "keys T' = filter (\<lambda>x. x \<noteq> ''b'') (keys three_tree)"
    by auto
  have "keys T' = [''a'', ''c'']" using a(9) by (simp add: three_tree_def)
  then show ?thesis using a h by (auto simp: three_tree_def)
qed

text \<open>
  C8. \<^verbatim>\<open>bt_delete\<close> with an output parameter, of a key \<open>k\<close> whose node \<open>a\<close> has two
  children, in a search tree at rest, when the copy of the successor's key can be
  allocated. Before the call a lookup of \<open>k\<close> gives the value \<open>v\<close> of the node \<open>a\<close> and a
  lookup of the successor's key \<open>sk\<close> gives \<open>sv\<close>. After the call the node \<open>a\<close> holds
  the key \<open>sk\<close> and still the value \<open>v\<close>, so a lookup of \<open>sk\<close> gives \<open>v\<close>, not \<open>sv\<close>,
  which went to the caller; a lookup of \<open>k\<close> finds nothing.
\<close>

theorem C8_lookup_of_the_successor_key_after_delete:
  assumes "still s T" and "bst T"
    and "tree_at k T = Node l a k v r" and "l \<noteq> Leaf" and "r \<noteq> Leaf"
    and "min_node r = Some (sa, sk, sv)" and "strdup_ok e"
  shows "\<exists>s' n n'.
     nodes s a = Some n \<and> key n = k \<and> val n = v \<and>
     bt_lookup s (Some ()) (Some k) (Some y) = Some (True, Some v, s) \<and>
     bt_lookup s (Some ()) (Some sk) (Some y) = Some (True, Some sv, s) \<and>
     bt_delete e s (Some ()) (Some k) (Some x) = Some (0, Some sv, s') \<and>
     nodes s' a = Some n' \<and> key n' = sk \<and> val n' = v \<and>
     bt_lookup s' (Some ()) (Some sk) (Some y) = Some (True, Some v, s') \<and>
     bt_lookup s' (Some ()) (Some k) (Some y) = Some (False, Some y, s')"
proof -
  let ?T' = "tree_del True True k T"
  from delete_two_children[OF assms, of "Some x"] obtain s' n n' where
    a: "bt_delete e s (Some ()) (Some k) (Some x) = Some (0, Some sv, s')"
     "still s' ?T'"
     "nodes s a = Some n" "key n = k" "val n = v"
     "nodes s' a = Some n'" "key n' = sk" "val n' = v"
    by auto
  have f0: "tree_find k T = Some (a, v)" using tree_find_at[of k T] assms(3) by simp
  have f1: "tree_find sk T = Some (sa, sv)" using tree_find_successor[OF assms(2,3,6)] .
  have f2: "tree_find sk ?T' = Some (a, v)"
    using tree_find_after_delete[OF assms(2,3,4,5,6), of True] by simp
  have "k \<notin> set (keys ?T')" using keys_tree_del[OF assms(2), of True k] by simp
  then have f3: "tree_find k ?T' = None" using tree_find_keys[of k ?T'] by (cases "tree_find k ?T'") auto
  show ?thesis
    using a bt_lookup_still[OF assms(1), of k "Some y"] bt_lookup_still[OF assms(1), of sk "Some y"]
      bt_lookup_still[OF a(2), of sk "Some y"] bt_lookup_still[OF a(2), of k "Some y"] f0 f1 f2 f3
    by simp
qed

theorem C8_lookup_after_delete_witness:
  "still three_nodes three_tree \<and> bst three_tree \<and>
   tree_at ''b'' three_tree = three_tree \<and>
   min_node (Node Leaf 3 ''c'' ''charlie'' Leaf) = Some (3, ''c'', ''charlie'') \<and>
   strdup_ok (alloc_at 9) \<and>
   bt_lookup three_nodes (Some ()) (Some ''c'') (Some ''?'') = Some (True, Some ''charlie'', three_nodes) \<and>
   (\<exists>s' n'.
      bt_delete (alloc_at 9) three_nodes (Some ()) (Some ''b'') (Some ''?'') = Some (0, Some ''charlie'', s') \<and>
      nodes s' 1 = Some n' \<and> key n' = ''c'' \<and> val n' = ''bravo'' \<and>
      bt_lookup s' (Some ()) (Some ''c'') (Some ''?'') = Some (True, Some ''bravo'', s'))"
proof -
  have h: "still three_nodes three_tree" "bst three_tree"
    "tree_at ''b'' three_tree = Node (Node Leaf 2 ''a'' ''alpha'' Leaf) 1 ''b'' ''bravo'' (Node Leaf 3 ''c'' ''charlie'' Leaf)"
    "Node Leaf 2 ''a'' ''alpha'' Leaf \<noteq> Leaf" "Node Leaf 3 ''c'' ''charlie'' Leaf \<noteq> Leaf"
    "min_node (Node Leaf 3 ''c'' ''charlie'' Leaf) = Some (3, ''c'', ''charlie'')"
    "strdup_ok (alloc_at 9)"
    using three_nodes_still by (simp_all add: three_tree_def alloc_at_def)
  from C8_lookup_of_the_successor_key_after_delete[OF h, of "''?''" "''?''"]
  show ?thesis using h by (auto simp: three_tree_def)
qed

text \<open>
  C10. Not every lookup completes. On the tree with the root "d" and its left child
  "b", a lookup that starts while another reader holds the tree-wide lock shares the
  lock and returns. The call \<^verbatim>\<open>bt_delete(&t, "a", NULL)\<close> then finds no "a": it
  returns -1 with the tree-wide lock released, but with the mutex of the root still
  locked, since the exit of its search loop unlocks the current node only and not
  its parent. No call is in progress any more, so nothing will unlock that mutex,
  and every later \<^verbatim>\<open>bt_lookup\<close>, \<^verbatim>\<open>bt_add\<close> and \<^verbatim>\<open>bt_delete\<close>, for any key and from
  any thread, waits for it for ever: the call does not return.
\<close>

theorem C10_every_call_blocks_after_delete_of_an_absent_key:
  "map_option (\<lambda>(found, out, s). (found, out, rwlock s))
     (bt_lookup (two_adds\<lparr>rwlock := ReadLocked 1\<rparr>) (Some ()) (Some ''d'') (Some ''?''))
   = Some (True, Some ''delta'', ReadLocked 1) \<and>
   map_option (\<lambda>(rc, out, s). (rc, out, rwlock s, root s, locked (nodes s) 1, locked (nodes s) 2))
     (bt_delete (alloc_at 0) two_adds (Some ()) (Some ''a'') None)
   = Some (- 1, None, Unlocked, Some 1, True, False) \<and>
   bt_lookup absent_deleted (Some ()) (Some k) out = None \<and>
   bt_lookup (absent_deleted\<lparr>rwlock := ReadLocked n\<rparr>) (Some ()) (Some k) out = None \<and>
   bt_add e absent_deleted (Some ()) (Some k) v = None \<and>
   bt_delete e absent_deleted (Some ()) (Some k) old = None"
proof -
  have a: "map_option (\<lambda>(found, out, s). (found, out, rwlock s))
     (bt_lookup (two_adds\<lparr>rwlock := ReadLocked 1\<rparr>) (Some ()) (Some ''d'') (Some ''?''))
   = Some (True, Some ''delta'', ReadLocked 1)"
    unfolding two_adds_def by code_simp
  have r: "root absent_deleted = Some 1" "locked (nodes absent_deleted) 1"
    using absent_deleted_obs by (auto simp: absent_deleted_def after_delete_def)
  have r': "root (absent_deleted\<lparr>rwlock := ReadLocked n\<rparr>) = Some 1"
    "locked (nodes (absent_deleted\<lparr>rwlock := ReadLocked n\<rparr>)) 1"
    using r by simp_all
  show ?thesis
    using a absent_deleted_obs blocked_at_root[OF r] blocked_at_root(1)[OF r'] by simp
qed


end
